theory Spec2Isabelle
  imports Main "HOL-Library.AList"
begin

section \<open>Resources, decorations and cache slots\<close>

text \<open>
  A resource is identified by its URI. The cache is keyed by the URI's segments
  (\<^verbatim>\<open>TernarySearchTree.forUris\<close>), so a URI is modelled as the list of its segments; two URIs
  with the same serialisation are the same list (\<^verbatim>\<open>new URI(uri.toString())\<close> is the identity here).
\<close>

type_synonym uri = "string list"

text \<open>
  \<^verbatim>\<open>IDecorationData\<close> of \<^verbatim>\<open>decorations-protocol.ts\<close>: every field is optional. The weight is a
  number that this code never reads.
\<close>

record IDecorationData =
  weight :: "int option"
  color :: "string option"
  letter :: "string option"
  tooltip :: "string option"
  bubble :: "bool option"

text \<open>
  The values stored in the tree have the TypeScript type
  \<^verbatim>\<open>DecorationDataRequest | IDecorationData | undefined\<close>. A \<^verbatim>\<open>DecorationDataRequest\<close> is an object compared
  by identity (\<^verbatim>\<open>===\<close>); it is modelled by the number of the \<^verbatim>\<open>CancellationTokenSource\<close> it owns.
\<close>

datatype slot = Request nat | Data IDecorationData | Undefined

fun truthy :: "slot \<Rightarrow> bool" where
  "truthy Undefined = False"
| "truthy (Request r) = True"
| "truthy (Data d) = True"

fun orUndefined :: "IDecorationData option \<Rightarrow> slot" where
  "orUndefined None = Undefined"
| "orUndefined (Some d) = Data d"

subsection \<open>The ternary search tree\<close>

text \<open>
  Modelled from the spec: the class \<^verbatim>\<open>TernarySearchTree\<close> (\<^verbatim>\<open>common/ternary-search-tree\<close>) is not among
  the sources at hand. The specification describes it as a key-value store keyed by hierarchical
  paths with point lookup, point insert and delete, clear, and the enumeration of all entries whose
  key is a strict descendant of a prefix. It is modelled as an association list; an entry whose
  stored value is \<^verbatim>\<open>undefined\<close> is an entry. As the callers show, \<^verbatim>\<open>get\<close> answers \<^verbatim>\<open>undefined\<close> for a
  missing key, \<^verbatim>\<open>set\<close> returns the value stored before, and \<^verbatim>\<open>findSuperstr\<close> returns either
  \<^verbatim>\<open>undefined\<close> (no descendant entry) or an iterator over the descendants' values.
\<close>

type_synonym tst = "(uri \<times> slot) list"

definition isDescendant :: "uri \<Rightarrow> uri \<Rightarrow> bool" where
  "isDescendant p k = (length p < length k \<and> take (length p) k = p)"

definition tst_get :: "tst \<Rightarrow> uri \<Rightarrow> slot" where
  "tst_get t k = (case map_of t k of None \<Rightarrow> Undefined | Some v \<Rightarrow> v)"

definition tst_set :: "tst \<Rightarrow> uri \<Rightarrow> slot \<Rightarrow> slot \<times> tst" where
  "tst_set t k v = (tst_get t k, AList.update k v t)"

definition tst_delete :: "tst \<Rightarrow> uri \<Rightarrow> tst" where
  "tst_delete t k = AList.delete k t"

definition tst_clear :: "tst \<Rightarrow> tst" where
  "tst_clear t = []"

definition tst_findSuperstr :: "tst \<Rightarrow> uri \<Rightarrow> slot list option" where
  "tst_findSuperstr t p =
     (case filter (\<lambda>e. isDescendant p (fst e)) t of
        [] \<Rightarrow> None
      | e # es \<Rightarrow> Some (map snd (e # es)))"

section \<open>The provider session: \<^verbatim>\<open>DecorationProviderWrapper\<close>\<close>

text \<open>
  \<^verbatim>\<open>provideDecorations\<close> returns a decoration, \<^verbatim>\<open>undefined\<close>, or a promise. What a promise settles to
  arrives later, as a separate step.
\<close>

datatype provided = Sync "IDecorationData option" | Thenable

text \<open>
  The provider is external. Its answer may depend on everything it was asked before, so it is a
  function of the earlier calls and the resource asked for. The session records the calls it makes
  (\<open>calls\<close>); the \<open>n\<close>-th call (counting from 0) is handed the token of the \<open>n\<close>-th
  \<^verbatim>\<open>CancellationTokenSource\<close>, and \<open>cancelled\<close> lists the sources on which \<^verbatim>\<open>cancel()\<close> was called.
  \<open>subscribed\<close> is the subscription to \<^verbatim>\<open>provider.onDidChange\<close> held in \<^verbatim>\<open>_dispoable\<close>.
\<close>

record DecorationProviderWrapper =
  data :: tst
  provider :: "uri list \<Rightarrow> uri \<Rightarrow> provided"
  calls :: "uri list"
  cancelled :: "nat list"
  subscribed :: bool

text \<open>
  The two emitters handed to the constructor: \<^verbatim>\<open>_uriEmitter\<close> and \<^verbatim>\<open>_flushEmitter\<close>. An emitter is
  modelled by the sequence of events fired on it. An \<^verbatim>\<open>IResourceDecorationChangeEvent\<close> is its
  predicate \<^verbatim>\<open>affectsResource\<close>; \<^verbatim>\<open>fire\<close> hands the event to the listeners at once, so the
  predicate is recorded as it answers at that moment.
\<close>

record emitters =
  uriEmitter :: "uri list"
  flushEmitter :: "(uri \<Rightarrow> bool) list"

type_synonym session = "DecorationProviderWrapper \<times> emitters"

definition newWrapper :: "(uri list \<Rightarrow> uri \<Rightarrow> provided) \<Rightarrow> DecorationProviderWrapper" where
  "newWrapper p = \<lparr>data = [], provider = p, calls = [], cancelled = [], subscribed = True\<rparr>"

definition dispose :: "DecorationProviderWrapper \<Rightarrow> DecorationProviderWrapper" where
  "dispose w = w\<lparr>subscribed := False, data := tst_clear (data w)\<rparr>"

definition knowsAbout :: "DecorationProviderWrapper \<Rightarrow> uri \<Rightarrow> bool" where
  "knowsAbout w u = (truthy (tst_get (data w) u) \<or> tst_findSuperstr (data w) u \<noteq> None)"

text \<open>\<^verbatim>\<open>_keepItem\<close>: store the result, fire the per-resource event when \<^verbatim>\<open>deco || old\<close>.\<close>

definition keepItem :: "uri \<Rightarrow> IDecorationData option \<Rightarrow> session \<Rightarrow> IDecorationData option \<times> session" where
  "keepItem u dat s =
     (let w = fst s; em = snd s;
          deco = dat;
          r = tst_set (data w) u (orUndefined deco);
          old = fst r;
          w' = w\<lparr>data := snd r\<rparr>
      in if deco \<noteq> None \<or> truthy old
         then (deco, w', em\<lparr>uriEmitter := uriEmitter em @ [u]\<rparr>)
         else (deco, w', em))"

text \<open>
  \<^verbatim>\<open>_fetchData\<close>, first part: a pending request found in the slot is cancelled and its slot deleted.
\<close>

definition cancelPending :: "uri \<Rightarrow> DecorationProviderWrapper \<Rightarrow> DecorationProviderWrapper" where
  "cancelPending u w =
     (case tst_get (data w) u of
        Request r \<Rightarrow> w\<lparr>cancelled := cancelled w @ [r], data := tst_delete (data w) u\<rparr>
      | Data d \<Rightarrow> w
      | Undefined \<Rightarrow> w)"

text \<open>
  \<^verbatim>\<open>_fetchData\<close>, second part: a new token source, the call of the provider, and either the
  immediate store of a synchronous answer or the installation of the new request.
\<close>

definition provide :: "uri \<Rightarrow> session \<Rightarrow> IDecorationData option \<times> session" where
  "provide u s =
     (let w = fst s; em = snd s;
          source = length (calls w);
          dataOrThenable = provider w (calls w) u;
          w1 = w\<lparr>calls := calls w @ [u]\<rparr>
      in case dataOrThenable of
           Sync d \<Rightarrow> keepItem u d (w1, em)
         | Thenable \<Rightarrow> (None, (w1\<lparr>data := snd (tst_set (data w1) u (Request source))\<rparr>, em)))"

definition fetchData :: "uri \<Rightarrow> session \<Rightarrow> IDecorationData option \<times> session" where
  "fetchData u s = provide u (cancelPending u (fst s), snd s)"

text \<open>
  The two continuations of the promise of request \<open>r\<close> for resource \<open>u\<close>: \<^verbatim>\<open>then\<close> with the data,
  \<^verbatim>\<open>catch\<close> with the error. An error is the cancellation error when it is an \<^verbatim>\<open>Error\<close> whose name and
  message are both \<^verbatim>\<open>Canceled\<close>.
\<close>

datatype rejection = Error string string | NotAnError

fun isCanceled :: "rejection \<Rightarrow> bool" where
  "isCanceled (Error name message) = (name = ''Canceled'' \<and> message = ''Canceled'')"
| "isCanceled NotAnError = False"

definition onFulfilled :: "uri \<Rightarrow> nat \<Rightarrow> IDecorationData option \<Rightarrow> session \<Rightarrow> session" where
  "onFulfilled u r dat s =
     (if tst_get (data (fst s)) u = Request r then snd (keepItem u dat s) else s)"

definition onRejected :: "uri \<Rightarrow> nat \<Rightarrow> rejection \<Rightarrow> session \<Rightarrow> session" where
  "onRejected u r err s =
     (if \<not> isCanceled err \<and> tst_get (data (fst s)) u = Request r
      then ((fst s)\<lparr>data := tst_delete (data (fst s)) u\<rparr>, snd s)
      else s)"

text \<open>
  \<^verbatim>\<open>getOrRetrieve\<close> calls its callback for the resource itself and, when asked, for every resolved
  descendant. The model returns the calls of the callback, in order, as pairs of the decoration and
  \<^verbatim>\<open>isChild\<close>.
\<close>

fun resolved :: "slot \<Rightarrow> bool \<Rightarrow> (IDecorationData \<times> bool) list" where
  "resolved (Data d) isChild = [(d, isChild)]"
| "resolved (Request r) isChild = []"
| "resolved Undefined isChild = []"

definition children :: "tst \<Rightarrow> uri \<Rightarrow> (IDecorationData \<times> bool) list" where
  "children t u =
     (case tst_findSuperstr t u of
        None \<Rightarrow> []
      | Some vs \<Rightarrow> concat (map (\<lambda>v. resolved v True) vs))"

definition getOrRetrieve :: "uri \<Rightarrow> bool \<Rightarrow> session \<Rightarrow> (IDecorationData \<times> bool) list \<times> session" where
  "getOrRetrieve u includeChildren s =
     (let item0 = tst_get (data (fst s)) u;
          r = (if item0 = Undefined
               then (let f = fetchData u s in (orUndefined (fst f), snd f))
               else (item0, s));
          item = fst r; s' = snd r
      in (resolved item False @ (if includeChildren then children (data (fst s')) u else []), s'))"

text \<open>The listener on \<^verbatim>\<open>provider.onDidChange\<close>: a flush (no list) or a list of changed resources.\<close>

definition onDidChange :: "uri list option \<Rightarrow> session \<Rightarrow> session" where
  "onDidChange uris s =
     (case uris of
        None \<Rightarrow> ((fst s)\<lparr>data := tst_clear (data (fst s))\<rparr>,
                 (snd s)\<lparr>flushEmitter := flushEmitter (snd s) @ [\<lambda>u. True]\<rparr>)
      | Some us \<Rightarrow> fold (\<lambda>u s'. snd (fetchData u s')) us s)"

text \<open>
  What can happen to a session, one event at a time: a query, a change event of the provider
  (delivered only while the subscription is held), the settling of a promise, the disposal.
\<close>

datatype wop =
    GetOrRetrieve uri bool
  | Changed "uri list option"
  | Fulfilled uri nat "IDecorationData option"
  | Rejected uri nat rejection
  | Dispose

fun wstep :: "wop \<Rightarrow> session \<Rightarrow> session" where
  "wstep (GetOrRetrieve u includeChildren) s = snd (getOrRetrieve u includeChildren s)"
| "wstep (Changed uris) s = (if subscribed (fst s) then onDidChange uris s else s)"
| "wstep (Fulfilled u r dat) s = onFulfilled u r dat s"
| "wstep (Rejected u r err) s = onRejected u r err s"
| "wstep Dispose s = (dispose (fst s), snd s)"

definition wrun :: "wop list \<Rightarrow> session \<Rightarrow> session" where
  "wrun ops s = fold wstep ops s"

text \<open>The number of entries of the cache that hold a pending request for a resource.\<close>

fun isRequest :: "slot \<Rightarrow> bool" where
  "isRequest (Request r) = True"
| "isRequest (Data d) = False"
| "isRequest Undefined = False"

definition pendingSlots :: "tst \<Rightarrow> uri \<Rightarrow> nat" where
  "pendingSlots t u = length (filter (\<lambda>e. fst e = u \<and> isRequest (snd e)) t)"

section \<open>The aggregator: \<^verbatim>\<open>DecorationsServiceImpl\<close>\<close>

text \<open>
  The wrapper objects live in a store, addressed by the order of their creation: the closure
  returned by \<^verbatim>\<open>registerDecorationsProvider\<close> keeps its wrapper after the wrapper has left the
  array \<^verbatim>\<open>_data\<close> (here \<open>wrappers\<close>, the addresses in registration order). \<open>emit\<close> holds the two
  emitters of the service: \<^verbatim>\<open>_onDidChangeDecorationsDelayed\<close>, which every wrapper receives as its
  \<^verbatim>\<open>_uriEmitter\<close>, and \<^verbatim>\<open>onDidChangeDecorationsEmitter\<close>, which every wrapper receives as its
  \<^verbatim>\<open>_flushEmitter\<close>.
\<close>

record DecorationsServiceImpl =
  heap :: "nat \<Rightarrow> DecorationProviderWrapper option"
  allocated :: nat
  wrappers :: "nat list"
  emit :: emitters

definition newService :: DecorationsServiceImpl where
  "newService = \<lparr>heap = (\<lambda>h. None), allocated = 0, wrappers = [],
                  emit = \<lparr>uriEmitter = [], flushEmitter = []\<rparr>\<rparr>"

text \<open>
  \<^verbatim>\<open>readonly onDidChangeDecorations = this.onDidChangeDecorationsEmitter.event\<close>: a subscriber of the
  public stream receives what is fired on that emitter. The \<^verbatim>\<open>event\<close> of
  \<^verbatim>\<open>_onDidChangeDecorationsDelayed\<close> is read nowhere in the class.
\<close>

definition onDidChangeDecorations :: "DecorationsServiceImpl \<Rightarrow> (uri \<Rightarrow> bool) list" where
  "onDidChangeDecorations s = flushEmitter (emit s)"

text \<open>\<^verbatim>\<open>Array.prototype.indexOf\<close> (\<open>-1\<close> when absent) and \<^verbatim>\<open>Array.prototype.splice(start, 1)\<close>.\<close>

fun indexOf :: "nat list \<Rightarrow> nat \<Rightarrow> int" where
  "indexOf [] x = - 1"
| "indexOf (y # ys) x =
     (if y = x then 0 else (let i = indexOf ys x in if i < 0 then - 1 else i + 1))"

definition splice1 :: "'a list \<Rightarrow> int \<Rightarrow> 'a list" where
  "splice1 xs start =
     (let n = int (length xs);
          from = (if start < 0 then max (n + start) 0 else min start n)
      in take (nat from) xs @ drop (Suc (nat from)) xs)"

text \<open>
  \<^verbatim>\<open>registerDecorationsProvider\<close> returns a disposable; the model returns the address of the wrapper
  the disposable's closure holds.
\<close>

definition registerDecorationsProvider ::
  "(uri list \<Rightarrow> uri \<Rightarrow> provided) \<Rightarrow> DecorationsServiceImpl \<Rightarrow> nat \<times> DecorationsServiceImpl" where
  "registerDecorationsProvider p s =
     (let h = allocated s
      in (h, s\<lparr>heap := (heap s)(h \<mapsto> newWrapper p),
                allocated := Suc h,
                wrappers := wrappers s @ [h],
                emit := (emit s)\<lparr>flushEmitter := flushEmitter (emit s) @ [\<lambda>u. True]\<rparr>\<rparr>))"

text \<open>
  The function handed to \<^verbatim>\<open>Disposable.create\<close>. \<^verbatim>\<open>Disposable.create\<close> itself is not among the sources
  at hand; the function it is given carries no guard of its own, and each call of the handle's
  \<^verbatim>\<open>dispose\<close> is taken to run it.
\<close>

definition disposeRegistration :: "nat \<Rightarrow> DecorationsServiceImpl \<Rightarrow> DecorationsServiceImpl" where
  "disposeRegistration h s =
     (case heap s h of
        None \<Rightarrow> s
      | Some w \<Rightarrow>
          s\<lparr>wrappers := splice1 (wrappers s) (indexOf (wrappers s) h),
            emit := (emit s)\<lparr>flushEmitter := flushEmitter (emit s) @ [knowsAbout w]\<rparr>,
            heap := (heap s)(h \<mapsto> dispose w)\<rparr>)"

text \<open>
  \<^verbatim>\<open>getDecoration\<close>: the callback given to every wrapper pushes the decoration when
  \<^verbatim>\<open>!isChild || deco.bubble\<close>. \<open>reported\<close> runs the loop over \<^verbatim>\<open>_data\<close> and collects the calls of
  the callback; \<open>getDecoration\<close> applies the callback to them, starting from the empty array and
  \<^verbatim>\<open>containsChildren = false\<close>.
\<close>

definition callback ::
  "IDecorationData \<times> bool \<Rightarrow> IDecorationData list \<times> bool \<Rightarrow> IDecorationData list \<times> bool" where
  "callback c acc =
     (let deco = fst c; isChild = snd c
      in if \<not> isChild \<or> bubble deco = Some True
         then (fst acc @ [deco], isChild \<or> snd acc)
         else acc)"

definition visit ::
  "uri \<Rightarrow> bool \<Rightarrow> nat \<Rightarrow> (IDecorationData \<times> bool) list \<times> DecorationsServiceImpl
     \<Rightarrow> (IDecorationData \<times> bool) list \<times> DecorationsServiceImpl" where
  "visit u includeChildren h r =
     (case heap (snd r) h of
        None \<Rightarrow> r
      | Some w \<Rightarrow>
          (let g = getOrRetrieve u includeChildren (w, emit (snd r))
           in (fst r @ fst g,
               (snd r)\<lparr>heap := (heap (snd r))(h \<mapsto> fst (snd g)), emit := snd (snd g)\<rparr>)))"

definition reported ::
  "uri \<Rightarrow> bool \<Rightarrow> DecorationsServiceImpl \<Rightarrow> (IDecorationData \<times> bool) list \<times> DecorationsServiceImpl" where
  "reported u includeChildren s = fold (visit u includeChildren) (wrappers s) ([], s)"

definition getDecoration ::
  "uri \<Rightarrow> bool \<Rightarrow> DecorationsServiceImpl \<Rightarrow> IDecorationData list \<times> DecorationsServiceImpl" where
  "getDecoration u includeChildren s =
     (let r = reported u includeChildren s
      in (fst (fold callback (fst r) ([], False)), snd r))"

text \<open>A continuation of a wrapper (a settled promise, a change event) run inside the service.\<close>

definition inWrapper :: "nat \<Rightarrow> (session \<Rightarrow> session) \<Rightarrow> DecorationsServiceImpl \<Rightarrow> DecorationsServiceImpl" where
  "inWrapper h k s =
     (case heap s h of
        None \<Rightarrow> s
      | Some w \<Rightarrow> (let r = k (w, emit s) in s\<lparr>heap := (heap s)(h \<mapsto> fst r), emit := snd r\<rparr>))"

section \<open>The request queue: \<^verbatim>\<open>DecorationRequestsQueue\<close>\<close>

text \<open>
  A \<^verbatim>\<open>DecorationRequest\<close> is \<^verbatim>\<open>{ id, uri }\<close>. The two maps keep their keys in insertion order, as a
  JavaScript \<^verbatim>\<open>Map\<close> does. The value of \<^verbatim>\<open>_resolver\<close> under an id is the \<^verbatim>\<open>resolve\<close> function of the
  promise that \<^verbatim>\<open>enqueue\<close> returned for that id; the promise (the waiter) is named by the id.
  \<open>timer\<close> says that \<^verbatim>\<open>_timer\<close> is a number; \<open>timeouts\<close> counts the functions handed to
  \<^verbatim>\<open>setTimeout\<close> that have not run yet. \<open>proxyCalls\<close> lists the request arrays given to
  \<^verbatim>\<open>$provideDecorations\<close>, \<open>inflight\<close> the resolver maps captured by the calls that have not
  answered, and \<open>resolvedWith\<close> the calls \<^verbatim>\<open>resolve(data[id])\<close> made so far, as pairs of the waiter
  and the value. The type \<open>'d\<close> stands for \<^verbatim>\<open>DecorationData\<close>, declared elsewhere.
\<close>

type_synonym DecorationRequest = "nat \<times> uri"

record 'd DecorationRequestsQueue =
  idPool :: nat
  requests :: "(nat \<times> DecorationRequest) list"
  resolver :: "(nat \<times> nat) list"
  timer :: bool
  timeouts :: nat
  proxyCalls :: "DecorationRequest list list"
  inflight :: "(nat \<times> nat) list list"
  resolvedWith :: "(nat \<times> 'd option) list"

definition newQueue :: "'d DecorationRequestsQueue" where
  "newQueue = \<lparr>idPool = 0, requests = [], resolver = [], timer = False, timeouts = 0,
                proxyCalls = [], inflight = [], resolvedWith = []\<rparr>"

definition processQueue :: "'d DecorationRequestsQueue \<Rightarrow> 'd DecorationRequestsQueue" where
  "processQueue q = (if timer q then q else q\<lparr>timer := True, timeouts := Suc (timeouts q)\<rparr>)"

definition enqueue :: "uri \<Rightarrow> 'd DecorationRequestsQueue \<Rightarrow> nat \<times> 'd DecorationRequestsQueue" where
  "enqueue u q =
     (let rid = Suc (idPool q)
      in (rid, processQueue (q\<lparr>idPool := rid,
                               requests := AList.update rid (rid, u) (requests q),
                               resolver := AList.update rid rid (resolver q)\<rparr>)))"

text \<open>The listener that \<^verbatim>\<open>enqueue\<close> puts on the token of request \<open>rid\<close>.\<close>

definition onCancellationRequested :: "nat \<Rightarrow> 'd DecorationRequestsQueue \<Rightarrow> 'd DecorationRequestsQueue" where
  "onCancellationRequested rid q =
     q\<lparr>requests := AList.delete rid (requests q), resolver := AList.delete rid (resolver q)\<rparr>"

text \<open>The function given to \<^verbatim>\<open>setTimeout\<close>; it runs only if one is waiting.\<close>

definition onTimeout :: "'d DecorationRequestsQueue \<Rightarrow> 'd DecorationRequestsQueue" where
  "onTimeout q =
     (if timeouts q = 0 then q
      else q\<lparr>timeouts := timeouts q - 1,
             proxyCalls := proxyCalls q @ [map snd (requests q)],
             inflight := inflight q @ [resolver q],
             requests := [],
             resolver := [],
             timer := False\<rparr>)"

text \<open>
  The \<open>k\<close>-th call in flight answers with \<open>dat\<close> (\<^verbatim>\<open>data[id]\<close> is \<open>dat\<close> at the id), or fails; a failed call
  has no continuation.
\<close>

definition without :: "nat \<Rightarrow> 'a list \<Rightarrow> 'a list" where
  "without k xs = take k xs @ drop (Suc k) xs"

definition onAnswer :: "nat \<Rightarrow> (nat \<Rightarrow> 'd option) \<Rightarrow> 'd DecorationRequestsQueue \<Rightarrow> 'd DecorationRequestsQueue" where
  "onAnswer k dat q =
     (if k < length (inflight q)
      then q\<lparr>resolvedWith := resolvedWith q @ map (\<lambda>e. (snd e, dat (fst e))) (inflight q ! k),
             inflight := without k (inflight q)\<rparr>
      else q)"

definition onFailure :: "nat \<Rightarrow> 'd DecorationRequestsQueue \<Rightarrow> 'd DecorationRequestsQueue" where
  "onFailure k q = (if k < length (inflight q) then q\<lparr>inflight := without k (inflight q)\<rparr> else q)"

datatype 'd qop = Enqueue uri | Cancel nat | Timeout | Answer nat "nat \<Rightarrow> 'd option" | Failure nat

fun qstep :: "'d qop \<Rightarrow> 'd DecorationRequestsQueue \<Rightarrow> 'd DecorationRequestsQueue" where
  "qstep (Enqueue u) q = snd (enqueue u q)"
| "qstep (Cancel rid) q = onCancellationRequested rid q"
| "qstep Timeout q = onTimeout q"
| "qstep (Answer k dat) q = onAnswer k dat q"
| "qstep (Failure k) q = onFailure k q"

definition qrun :: "'d qop list \<Rightarrow> 'd DecorationRequestsQueue \<Rightarrow> 'd DecorationRequestsQueue" where
  "qrun ops q = fold qstep ops q"

text \<open>
  The events of one scheduling turn, before the timeout runs: calls of \<^verbatim>\<open>enqueue\<close> and
  cancellations. \<open>stillLive p ops\<close> lists, in order, the requests that the turn \<open>ops\<close> enqueues,
  starting from the id pool \<open>p\<close>, and that the turn does not cancel afterwards.
\<close>

fun inTurn :: "'d qop \<Rightarrow> bool" where
  "inTurn (Enqueue u) = True"
| "inTurn (Cancel rid) = True"
| "inTurn Timeout = False"
| "inTurn (Answer k dat) = False"
| "inTurn (Failure k) = False"

fun isEnqueue :: "'d qop \<Rightarrow> bool" where
  "isEnqueue (Enqueue u) = True"
| "isEnqueue (Cancel rid) = False"
| "isEnqueue Timeout = False"
| "isEnqueue (Answer k dat) = False"
| "isEnqueue (Failure k) = False"

fun cancels :: "nat \<Rightarrow> 'd qop \<Rightarrow> bool" where
  "cancels i (Cancel rid) = (rid = i)"
| "cancels i (Enqueue u) = False"
| "cancels i Timeout = False"
| "cancels i (Answer k dat) = False"
| "cancels i (Failure k) = False"

fun stillLive :: "nat \<Rightarrow> 'd qop list \<Rightarrow> DecorationRequest list" where
  "stillLive p [] = []"
| "stillLive p (Enqueue u # ops) =
     (if list_ex (cancels (Suc p)) ops then stillLive (Suc p) ops
      else (Suc p, u) # stillLive (Suc p) ops)"
| "stillLive p (Cancel rid # ops) = stillLive p ops"
| "stillLive p (Timeout # ops) = stillLive p ops"
| "stillLive p (Answer k dat # ops) = stillLive p ops"
| "stillLive p (Failure k # ops) = stillLive p ops"

section \<open>Invariants and example inputs\<close>

text \<open>
  The invariant of a session: the keys of the cache are distinct, and a request found in the cache
  was created by one of the calls made so far. A request \<open>r\<close> is stale for a resource when it was
  created earlier and is not the slot of the resource.
\<close>

definition winv :: "DecorationProviderWrapper \<Rightarrow> bool" where
  "winv w = (distinct (map fst (data w)) \<and>
     (\<forall>k r. tst_get (data w) k = Request r \<longrightarrow> r < length (calls w)))"

definition stale :: "nat \<Rightarrow> uri \<Rightarrow> DecorationProviderWrapper \<Rightarrow> bool" where
  "stale r u w = (winv w \<and> r < length (calls w) \<and> tst_get (data w) u \<noteq> Request r)"

text \<open>Example inputs: a decoration with a badge, providers, the emitters before any event.\<close>

definition badge :: "string \<Rightarrow> bool option \<Rightarrow> IDecorationData" where
  "badge l b = \<lparr>weight = None, color = None, letter = Some l, tooltip = None, bubble = b\<rparr>"

definition asyncProvider :: "uri list \<Rightarrow> uri \<Rightarrow> provided" where
  "asyncProvider cs u = Thenable"

definition syncProvider :: "IDecorationData option \<Rightarrow> uri list \<Rightarrow> uri \<Rightarrow> provided" where
  "syncProvider d cs u = Sync d"

definition silent :: emitters where
  "silent = \<lparr>uriEmitter = [], flushEmitter = []\<rparr>"

text \<open>
  What the provider of a session answers at once when asked for a resource now, as reports to the
  callback; and the relation between the service before a query for \<open>u\<close> and the service while
  the query visits the wrappers: the same wrappers exist, with the same entries below \<open>u\<close>, and a
  decoration resolved for \<open>u\<close> is still there.
\<close>

definition synchronously :: "DecorationProviderWrapper \<Rightarrow> uri \<Rightarrow> (IDecorationData \<times> bool) list" where
  "synchronously w u =
     (case provider w (calls w) u of
        Sync x \<Rightarrow> resolved (orUndefined x) False
      | Thenable \<Rightarrow> [])"


text \<open>
  More example inputs: a provider that answers at once for one resource and with a promise for
  every other, the service after one registration, and after one registration and one query.
\<close>

definition onlyFor :: "uri \<Rightarrow> IDecorationData \<Rightarrow> uri list \<Rightarrow> uri \<Rightarrow> provided" where
  "onlyFor k d cs u = (if u = k then Sync (Some d) else Thenable)"

definition registered :: "(uri list \<Rightarrow> uri \<Rightarrow> provided) \<Rightarrow> DecorationsServiceImpl" where
  "registered p = snd (registerDecorationsProvider p newService)"

definition queried :: "(uri list \<Rightarrow> uri \<Rightarrow> provided) \<Rightarrow> uri \<Rightarrow> DecorationsServiceImpl" where
  "queried p u = snd (getDecoration u False (registered p))"

text \<open>The service after two registrations.\<close>

definition twoRegistered :: DecorationsServiceImpl where
  "twoRegistered =
     snd (registerDecorationsProvider asyncProvider
       (snd (registerDecorationsProvider asyncProvider newService)))"

text \<open>
  The invariant of the queue: a timeout is waiting exactly when the timer is set, and without a
  timer the two maps are empty; a request is stored under its own id and every waiter under the id
  it waits for, none above the id pool; the waiters captured by calls in flight and the waiters
  already resolved are not in the live map. A request \<open>rid\<close> is dead when it has been issued and
  is gone from the live maps, from every captured map and from the resolved waiters, and no call
  made after the first \<open>n\<close> carries it.
\<close>

definition qinv :: "'d DecorationRequestsQueue \<Rightarrow> bool" where
  "qinv q =
     (timeouts q = (if timer q then 1 else 0)
      \<and> (\<not> timer q \<longrightarrow> requests q = [] \<and> resolver q = [])
      \<and> (\<forall>e\<in>set (requests q). fst (snd e) = fst e \<and> fst e \<le> idPool q)
      \<and> (\<forall>e\<in>set (resolver q). snd e = fst e \<and> fst e \<le> idPool q)
      \<and> (\<forall>b\<in>set (inflight q). \<forall>e\<in>set b. snd e \<le> idPool q \<and> snd e \<notin> fst ` set (resolver q))
      \<and> (\<forall>x\<in>set (resolvedWith q). fst x \<le> idPool q \<and> fst x \<notin> fst ` set (resolver q)))"

definition dead :: "nat \<Rightarrow> nat \<Rightarrow> 'd DecorationRequestsQueue \<Rightarrow> bool" where
  "dead n rid q =
     (rid \<le> idPool q
      \<and> rid \<notin> fst ` snd ` set (requests q)
      \<and> rid \<notin> snd ` set (resolver q)
      \<and> (\<forall>b\<in>set (inflight q). rid \<notin> snd ` set b)
      \<and> rid \<notin> fst ` set (resolvedWith q)
      \<and> (\<forall>c\<in>set (drop n (proxyCalls q)). rid \<notin> fst ` set c))"

text \<open>
  The invariant of the service: no wrapper is twice in the array, and every wrapper in it has been
  created.
\<close>

definition sinv :: "DecorationsServiceImpl \<Rightarrow> bool" where
  "sinv s = (distinct (wrappers s) \<and> (\<forall>h\<in>set (wrappers s). h < allocated s))"

text \<open>
  The bubbling decorations a cache holds below a resource: the decorations of the resolved
  descendants whose bubble flag is set.
\<close>

definition bubbling :: "tst \<Rightarrow> uri \<Rightarrow> IDecorationData list" where
  "bubbling t u = map fst (filter (\<lambda>c. bubble (fst c) = Some True) (children t u))"

text \<open>
  A second invariant of the queue: the two live maps have the same keys, and every waiter, live
  or captured by a call in flight, is stored under the id it waits for.
\<close>

definition qkeys :: "'d DecorationRequestsQueue \<Rightarrow> bool" where
  "qkeys q =
     (fst ` set (requests q) = fst ` set (resolver q)
      \<and> (\<forall>e\<in>set (resolver q). snd e = fst e)
      \<and> (\<forall>b\<in>set (inflight q). \<forall>e\<in>set b. snd e = fst e))"

section \<open>Properties of the provider session\<close>

lemma tst_get_update: "tst_get (AList.update k v t) k' = (if k' = k then v else tst_get t k')"
  by (simp add: tst_get_def update_conv')

lemma tst_get_delete: "tst_get (AList.delete k t) k' = (if k' = k then Undefined else tst_get t k')"
  by (simp add: tst_get_def delete_conv')

lemma truthy_cases: "truthy v = ((\<exists>d. v = Data d) \<or> (\<exists>r. v = Request r))"
  by (cases v) auto

lemma orUndefined_not_Request [simp]: "orUndefined x \<noteq> Request r"
  by (cases x) auto

lemma keepItem_fst: "fst (keepItem u dat s) = dat"
  by (simp add: keepItem_def Let_def)

lemma keepItem_wrapper:
  "fst (snd (keepItem u dat s)) = (fst s)\<lparr>data := AList.update u (orUndefined dat) (data (fst s))\<rparr>"
  by (simp add: keepItem_def Let_def tst_set_def)

lemma keepItem_flush: "flushEmitter (snd (snd (keepItem u dat s))) = flushEmitter (snd s)"
  by (simp add: keepItem_def Let_def)

lemma winv_keepItem: "winv (fst s) \<Longrightarrow> winv (fst (snd (keepItem u dat s)))"
  by (auto simp: keepItem_wrapper winv_def tst_get_update distinct_update split: if_splits)

lemma stale_keepItem: "stale r k (fst s) \<Longrightarrow> stale r k (fst (snd (keepItem u dat s)))"
  unfolding stale_def using winv_keepItem[of s u dat]
  by (auto simp: keepItem_wrapper tst_get_update)

lemma winv_cancelPending: "winv w \<Longrightarrow> winv (cancelPending u w)"
  by (auto simp: cancelPending_def winv_def tst_delete_def tst_get_delete distinct_delete
      split: slot.splits if_splits)

lemma calls_cancelPending [simp]: "calls (cancelPending u w) = calls w"
  by (simp add: cancelPending_def split: slot.splits)

lemma provider_cancelPending [simp]: "provider (cancelPending u w) = provider w"
  by (simp add: cancelPending_def split: slot.splits)

lemma get_cancelPending:
  "tst_get (data (cancelPending u w)) k =
     (if k = u \<and> (\<exists>r. tst_get (data w) u = Request r) then Undefined else tst_get (data w) k)"
  by (auto simp: cancelPending_def tst_delete_def tst_get_delete split: slot.splits)

lemma stale_cancelPending: "stale r k w \<Longrightarrow> stale r k (cancelPending u w)"
  unfolding stale_def using winv_cancelPending[of w u]
  by (auto simp: get_cancelPending)

lemma provide_wrapper:
  "fst (snd (provide u s)) =
     (case provider (fst s) (calls (fst s)) u of
        Sync d \<Rightarrow> (fst s)\<lparr>calls := calls (fst s) @ [u],
                          data := AList.update u (orUndefined d) (data (fst s))\<rparr>
      | Thenable \<Rightarrow> (fst s)\<lparr>calls := calls (fst s) @ [u],
                          data := AList.update u (Request (length (calls (fst s)))) (data (fst s))\<rparr>)"
  by (simp add: provide_def Let_def keepItem_wrapper tst_set_def split: provided.splits)

lemma winv_provide: "winv (fst s) \<Longrightarrow> winv (fst (snd (provide u s)))"
  by (auto simp: provide_wrapper winv_def tst_get_update distinct_update less_Suc_eq
      split: provided.splits if_splits dest: spec)

lemma stale_provide: "stale r k (fst s) \<Longrightarrow> stale r k (fst (snd (provide u s)))"
  unfolding stale_def using winv_provide[of s u]
  by (auto simp: provide_wrapper tst_get_update split: provided.splits)

lemma winv_fetchData: "winv (fst s) \<Longrightarrow> winv (fst (snd (fetchData u s)))"
  by (simp add: fetchData_def winv_provide winv_cancelPending)

lemma stale_fetchData: "stale r k (fst s) \<Longrightarrow> stale r k (fst (snd (fetchData u s)))"
  by (simp add: fetchData_def stale_provide stale_cancelPending)

lemma stale_onFulfilled: "stale r k (fst s) \<Longrightarrow> stale r k (fst (onFulfilled u r' dat s))"
  by (simp add: onFulfilled_def stale_keepItem)

lemma stale_onRejected: "stale r k (fst s) \<Longrightarrow> stale r k (fst (onRejected u r' err s))"
  by (auto simp: onRejected_def stale_def winv_def tst_delete_def tst_get_delete distinct_delete)

lemma stale_getOrRetrieve: "stale r k (fst s) \<Longrightarrow> stale r k (fst (snd (getOrRetrieve u ic s)))"
  by (simp add: getOrRetrieve_def Let_def stale_fetchData)

lemma stale_fold_fetch:
  "stale r k (fst s) \<Longrightarrow> stale r k (fst (fold (\<lambda>u s'. snd (fetchData u s')) us s))"
  by (induction us arbitrary: s) (simp_all add: stale_fetchData)

lemma stale_onDidChange: "stale r k (fst s) \<Longrightarrow> stale r k (fst (onDidChange uris s))"
proof (cases uris)
  case None
  assume "stale r k (fst s)"
  then show ?thesis using None
    by (simp add: onDidChange_def stale_def winv_def tst_clear_def tst_get_def)
next
  case (Some us)
  assume "stale r k (fst s)"
  then show ?thesis using Some by (simp add: onDidChange_def stale_fold_fetch)
qed

lemma stale_dispose: "stale r k w \<Longrightarrow> stale r k (dispose w)"
  by (auto simp: dispose_def stale_def winv_def tst_clear_def tst_get_def)

lemma stale_wstep: "stale r k (fst s) \<Longrightarrow> stale r k (fst (wstep op s))"
  by (cases op)
     (simp_all add: stale_getOrRetrieve stale_onDidChange stale_onFulfilled stale_onRejected
        stale_dispose)

lemma stale_wrun: "stale r k (fst s) \<Longrightarrow> stale r k (fst (wrun ops s))"
  unfolding wrun_def by (induction ops arbitrary: s) (simp_all add: stale_wstep)


lemma winv_onFulfilled: "winv (fst s) \<Longrightarrow> winv (fst (onFulfilled u r' dat s))"
  by (simp add: onFulfilled_def winv_keepItem)

lemma winv_onRejected: "winv (fst s) \<Longrightarrow> winv (fst (onRejected u r' err s))"
  by (auto simp: onRejected_def winv_def tst_delete_def tst_get_delete distinct_delete)

lemma winv_getOrRetrieve: "winv (fst s) \<Longrightarrow> winv (fst (snd (getOrRetrieve u ic s)))"
  by (simp add: getOrRetrieve_def Let_def winv_fetchData)

lemma winv_fold_fetch:
  "winv (fst s) \<Longrightarrow> winv (fst (fold (\<lambda>u s'. snd (fetchData u s')) us s))"
  by (induction us arbitrary: s) (simp_all add: winv_fetchData)

lemma winv_onDidChange: "winv (fst s) \<Longrightarrow> winv (fst (onDidChange uris s))"
proof (cases uris)
  case None
  then show ?thesis
    by (simp add: onDidChange_def winv_def tst_clear_def tst_get_def)
next
  case (Some us)
  assume "winv (fst s)"
  then show ?thesis using Some by (simp add: onDidChange_def winv_fold_fetch)
qed

lemma winv_dispose: "winv (dispose w)"
  by (simp add: dispose_def winv_def tst_clear_def tst_get_def)

lemma winv_wstep: "winv (fst s) \<Longrightarrow> winv (fst (wstep op s))"
  by (cases op)
     (simp_all add: winv_getOrRetrieve winv_onDidChange winv_onFulfilled winv_onRejected
        winv_dispose)

lemma winv_wrun: "winv (fst s) \<Longrightarrow> winv (fst (wrun ops s))"
  unfolding wrun_def by (induction ops arbitrary: s) (simp_all add: winv_wstep)

lemma winv_newWrapper: "winv (newWrapper p)"
  by (simp add: winv_def newWrapper_def tst_get_def)

lemma one_entry_per_key:
  "distinct (map fst t) \<Longrightarrow> length (filter (\<lambda>e. fst e = k \<and> P e) t) \<le> 1"
proof (induction t)
  case Nil
  then show ?case by simp
next
  case (Cons e t)
  show ?case
  proof (cases "fst e = k")
    case True
    with Cons.prems have "k \<notin> fst ` set t" by auto
    then have "filter (\<lambda>e. fst e = k \<and> P e) t = []"
      by (auto simp: filter_empty_conv)
    then show ?thesis by simp
  next
    case False
    with Cons show ?thesis by simp
  qed
qed

lemma cancelled_provide: "cancelled (fst (snd (provide u s))) = cancelled (fst s)"
  by (simp add: provide_wrapper split: provided.splits)

lemma onFulfilled_other: "tst_get (data (fst s)) u \<noteq> Request r \<Longrightarrow> onFulfilled u r dat s = s"
  by (simp add: onFulfilled_def)

text \<open>
  C1. When a fetch starts for a resource whose slot holds a pending request \<open>r\<close>, the token of
  \<open>r\<close> is cancelled and the slot is deleted before the provider is asked and a new slot is
  installed. Whatever happens afterwards, the slot of the resource is never \<open>r\<close> again, so the
  continuation of \<open>r\<close> stores nothing: a result is stored only if the slot is still the very
  request it belongs to. In every state a session can reach, a resource has at most one pending
  slot.
\<close>

theorem superseded_fetch_never_stored:
  assumes reach: "s = wrun ops0 (newWrapper p, em)"
    and pending: "tst_get (data (fst s)) u = Request r"
  shows "r \<in> set (cancelled (cancelPending u (fst s)))
    \<and> map_of (data (cancelPending u (fst s))) u = None
    \<and> r \<in> set (cancelled (fst (snd (fetchData u s))))
    \<and> (\<forall>ops dat. tst_get (data (fst (wrun ops (snd (fetchData u s))))) u \<noteq> Request r
          \<and> onFulfilled u r dat (wrun ops (snd (fetchData u s))) = wrun ops (snd (fetchData u s)))
    \<and> (\<forall>k r' dat. tst_get (data (fst s)) k \<noteq> Request r' \<longrightarrow> onFulfilled k r' dat s = s)
    \<and> (\<forall>k. pendingSlots (data (fst s)) k \<le> 1)"
proof -
  have inv: "winv (fst s)"
    unfolding reach by (rule winv_wrun) (simp add: winv_newWrapper)
  have c1: "r \<in> set (cancelled (cancelPending u (fst s)))"
    using pending by (simp add: cancelPending_def)
  have c2: "map_of (data (cancelPending u (fst s))) u = None"
    using pending by (simp add: cancelPending_def tst_delete_def delete_conv')
  have c3: "r \<in> set (cancelled (fst (snd (fetchData u s))))"
    using c1 by (simp add: fetchData_def cancelled_provide)
  have issued: "r < length (calls (fst s))"
    using inv pending by (auto simp: winv_def)
  have "stale r u (cancelPending u (fst s))"
    using inv issued pending by (simp add: stale_def winv_cancelPending get_cancelPending)
  then have st: "stale r u (fst (snd (fetchData u s)))"
    by (simp add: fetchData_def stale_provide)
  have c4: "tst_get (data (fst (wrun ops (snd (fetchData u s))))) u \<noteq> Request r
      \<and> onFulfilled u r dat (wrun ops (snd (fetchData u s))) = wrun ops (snd (fetchData u s))"
    for ops dat
    using stale_wrun[OF st, of ops] by (simp add: stale_def onFulfilled_other)
  have c5: "tst_get (data (fst s)) k \<noteq> Request r' \<longrightarrow> onFulfilled k r' dat s = s" for k r' dat
    by (simp add: onFulfilled_other)
  have c6: "pendingSlots (data (fst s)) k \<le> 1" for k
  proof -
    from inv have "distinct (map fst (data (fst s)))" by (simp add: winv_def)
    from one_entry_per_key[OF this, of k "\<lambda>e. isRequest (snd e)"]
    show ?thesis by (simp add: pendingSlots_def)
  qed
  show ?thesis using c1 c2 c3 c4 c5 c6 by blast
qed

theorem superseded_fetch_never_stored_witness:
  "tst_get (data (fst (wrun [GetOrRetrieve [''a''] False] (newWrapper asyncProvider, silent))))
       [''a''] = Request 0
   \<and> 0 \<in> set (cancelled (fst (snd (fetchData [''a'']
       (wrun [GetOrRetrieve [''a''] False] (newWrapper asyncProvider, silent))))))
   \<and> tst_get (data (fst (wrun
        [Fulfilled [''a''] 1 (Some (badge ''Y'' None)), Fulfilled [''a''] 0 (Some (badge ''X'' None))]
        (snd (fetchData [''a'']
          (wrun [GetOrRetrieve [''a''] False] (newWrapper asyncProvider, silent))))))) [''a'']
     = Data (badge ''Y'' None)"
proof -
  let ?s = "wrun [GetOrRetrieve [''a''] False] (newWrapper asyncProvider, silent)"
  have p: "tst_get (data (fst ?s)) [''a''] = Request 0"
    by (simp add: wrun_def getOrRetrieve_def fetchData_def provide_def cancelPending_def
        newWrapper_def asyncProvider_def silent_def tst_get_def tst_set_def Let_def)
  from superseded_fetch_never_stored[OF refl p]
  have c: "0 \<in> set (cancelled (fst (snd (fetchData [''a''] ?s))))" by blast
  have e: "tst_get (data (fst (wrun
        [Fulfilled [''a''] 1 (Some (badge ''Y'' None)), Fulfilled [''a''] 0 (Some (badge ''X'' None))]
        (snd (fetchData [''a''] ?s))))) [''a''] = Data (badge ''Y'' None)"
    by (simp add: wrun_def getOrRetrieve_def fetchData_def provide_def cancelPending_def
        newWrapper_def asyncProvider_def silent_def tst_get_def tst_set_def tst_delete_def Let_def
        onFulfilled_def keepItem_def)
  show ?thesis using p c e by blast
qed

text \<open>
  C7, as the code has it. Neither the new nor the previous value is a decoration here: the slot
  holds the pending request, the result is empty, and the notification is fired all the same.
\<close>

theorem keepItem_pending_to_empty_counterexample:
  "tst_get (data (fst (snd (fetchData [''a''] (newWrapper asyncProvider, silent))))) [''a'']
     = Request 0
   \<and> uriEmitter (snd (snd (fetchData [''a''] (newWrapper asyncProvider, silent)))) = []
   \<and> uriEmitter (snd (snd (keepItem [''a''] None
        (snd (fetchData [''a''] (newWrapper asyncProvider, silent)))))) = [[''a'']]"
  by (simp add: fetchData_def provide_def cancelPending_def keepItem_def newWrapper_def
      asyncProvider_def silent_def tst_get_def tst_set_def Let_def)

text \<open>
  C7, amended. \<^verbatim>\<open>_keepItem\<close> returns the decoration, replaces the slot of the resource by the
  decoration or by the empty marker and leaves every other slot alone. It fires the per-resource
  notification exactly when the new value is a decoration or the previous value of the slot was a
  decoration or a pending request; storing empty over an empty or missing slot is silent. It never
  fires on the other emitter.
\<close>

theorem keepItem_stores_and_notifies:
  "fst (keepItem u dat s) = dat
   \<and> tst_get (data (fst (snd (keepItem u dat s)))) u = orUndefined dat
   \<and> (\<forall>k. k \<noteq> u \<longrightarrow> tst_get (data (fst (snd (keepItem u dat s)))) k = tst_get (data (fst s)) k)
   \<and> uriEmitter (snd (snd (keepItem u dat s))) =
       (if dat \<noteq> None \<or> (\<exists>d. tst_get (data (fst s)) u = Data d)
           \<or> (\<exists>r. tst_get (data (fst s)) u = Request r)
        then uriEmitter (snd s) @ [u] else uriEmitter (snd s))
   \<and> flushEmitter (snd (snd (keepItem u dat s))) = flushEmitter (snd s)"
  by (auto simp: keepItem_def tst_set_def Let_def tst_get_update truthy_cases)

theorem keepItem_stores_and_notifies_witness:
  "tst_get (data (fst (snd (keepItem [''a''] None (newWrapper asyncProvider, silent))))) [''a'']
     = Undefined
   \<and> uriEmitter (snd (snd (keepItem [''a''] None (newWrapper asyncProvider, silent)))) = []
   \<and> uriEmitter (snd (snd (keepItem [''a''] (Some (badge ''M'' None))
        (newWrapper asyncProvider, silent)))) = [[''a'']]"
  using keepItem_stores_and_notifies[of "[''a'']" None "(newWrapper asyncProvider, silent)"]
    keepItem_stores_and_notifies[of "[''a'']" "Some (badge ''M'' None)"
      "(newWrapper asyncProvider, silent)"]
  by (simp add: newWrapper_def silent_def tst_get_def)

lemma calls_provide: "calls (fst (snd (provide u s))) = calls (fst s) @ [u]"
  by (simp add: provide_wrapper split: provided.splits)

lemma calls_fetchData: "calls (fst (snd (fetchData u s))) = calls (fst s) @ [u]"
  by (simp add: fetchData_def calls_provide)

lemma calls_getOrRetrieve:
  "calls (fst (snd (getOrRetrieve u ic s))) =
     (if tst_get (data (fst s)) u = Undefined then calls (fst s) @ [u] else calls (fst s))"
  by (simp add: getOrRetrieve_def Let_def calls_fetchData)

text \<open>
  C9. When the promise of request \<open>r\<close> rejects with anything but the cancellation error while
  \<open>r\<close> is still the slot of its resource, the slot is deleted, so the resource is unknown again;
  nothing is stored in its place, no other slot changes, no event is fired, the provider is not
  called, and the failure ends in the continuation. The next query for the resource calls the
  provider once more.
\<close>

theorem rejected_fetch_reverts_to_unknown:
  assumes "tst_get (data (fst s)) u = Request r" and "\<not> isCanceled err"
  shows "data (fst (onRejected u r err s)) = tst_delete (data (fst s)) u
    \<and> map_of (data (fst (onRejected u r err s))) u = None
    \<and> tst_get (data (fst (onRejected u r err s))) u = Undefined
    \<and> (\<forall>k. k \<noteq> u \<longrightarrow> tst_get (data (fst (onRejected u r err s))) k = tst_get (data (fst s)) k)
    \<and> snd (onRejected u r err s) = snd s
    \<and> calls (fst (onRejected u r err s)) = calls (fst s)
    \<and> calls (fst (snd (getOrRetrieve u ic (onRejected u r err s)))) = calls (fst s) @ [u]"
  using assms
  by (simp add: onRejected_def calls_getOrRetrieve tst_delete_def tst_get_delete delete_conv')

theorem rejected_fetch_reverts_to_unknown_witness:
  "tst_get (data (fst (snd (fetchData [''a''] (newWrapper asyncProvider, silent))))) [''a'']
     = Request 0
   \<and> \<not> isCanceled (Error ''TypeError'' ''boom'')
   \<and> data (fst (onRejected [''a''] 0 (Error ''TypeError'' ''boom'')
        (snd (fetchData [''a''] (newWrapper asyncProvider, silent))))) = []
   \<and> calls (fst (snd (getOrRetrieve [''a''] False
        (onRejected [''a''] 0 (Error ''TypeError'' ''boom'')
           (snd (fetchData [''a''] (newWrapper asyncProvider, silent))))))) = [[''a''], [''a'']]"
proof -
  let ?s = "snd (fetchData [''a''] (newWrapper asyncProvider, silent))"
  have p: "tst_get (data (fst ?s)) [''a''] = Request 0"
    by (simp add: fetchData_def provide_def cancelPending_def newWrapper_def
        asyncProvider_def silent_def tst_get_def tst_set_def Let_def)
  have e: "\<not> isCanceled (Error ''TypeError'' ''boom'')" by simp
  have d: "tst_delete (data (fst ?s)) [''a''] = []"
    by (simp add: fetchData_def provide_def cancelPending_def newWrapper_def
        asyncProvider_def silent_def tst_get_def tst_set_def tst_delete_def Let_def)
  have c: "calls (fst ?s) = [[''a'']]"
    by (simp add: calls_fetchData newWrapper_def)
  from rejected_fetch_reverts_to_unknown[OF p e, of False] p e d c
  show ?thesis by simp
qed

section \<open>Properties of the aggregator\<close>

lemma not_own_descendant [simp]: "\<not> isDescendant u u"
  by (simp add: isDescendant_def)

lemma below_update:
  "filter (\<lambda>e. isDescendant u (fst e)) (AList.update u v t) = filter (\<lambda>e. isDescendant u (fst e)) t"
  by (induction t) auto

lemma below_delete:
  "filter (\<lambda>e. isDescendant u (fst e)) (AList.delete u t) = filter (\<lambda>e. isDescendant u (fst e)) t"
  by (induction t) auto

lemma children_below:
  "children t u = concat (map (\<lambda>e. resolved (snd e) True) (filter (\<lambda>e. isDescendant u (fst e)) t))"
  by (simp add: children_def tst_findSuperstr_def comp_def split: list.splits)

lemma resolved_iff: "(c \<in> set (resolved v b)) = (v = Data (fst c) \<and> snd c = b)"
  by (cases v; cases c) auto


lemma child_reports_only: "c \<in> set (children t u) \<Longrightarrow> snd c = True"
  by (auto simp: children_below resolved_iff)

lemma below_cancelPending:
  "filter (\<lambda>e. isDescendant u (fst e)) (data (cancelPending u w)) =
   filter (\<lambda>e. isDescendant u (fst e)) (data w)"
  by (simp add: cancelPending_def tst_delete_def below_delete split: slot.splits)

lemma below_provide:
  "filter (\<lambda>e. isDescendant u (fst e)) (data (fst (snd (provide u s)))) =
   filter (\<lambda>e. isDescendant u (fst e)) (data (fst s))"
  by (simp add: provide_wrapper below_update split: provided.splits)

lemma below_fetchData:
  "filter (\<lambda>e. isDescendant u (fst e)) (data (fst (snd (fetchData u s)))) =
   filter (\<lambda>e. isDescendant u (fst e)) (data (fst s))"
  by (simp add: fetchData_def below_provide below_cancelPending)

lemma below_getOrRetrieve:
  "filter (\<lambda>e. isDescendant u (fst e)) (data (fst (snd (getOrRetrieve u ic s)))) =
   filter (\<lambda>e. isDescendant u (fst e)) (data (fst s))"
  by (simp add: getOrRetrieve_def Let_def below_fetchData)

lemma children_getOrRetrieve:
  "children (data (fst (snd (getOrRetrieve u ic s)))) u = children (data (fst s)) u"
  by (simp add: children_below below_getOrRetrieve)


lemma cancelPending_unknown: "tst_get (data w) u = Undefined \<Longrightarrow> cancelPending u w = w"
  by (simp add: cancelPending_def)

lemma fst_provide:
  "resolved (orUndefined (fst (provide u s))) False = synchronously (fst s) u"
  by (simp add: provide_def Let_def keepItem_fst synchronously_def split: provided.splits)

lemma getOrRetrieve_unknown:
  "tst_get (data (fst s)) u = Undefined \<Longrightarrow>
   fst (getOrRetrieve u ic s) =
     synchronously (fst s) u @ (if ic then children (data (fst s)) u else [])"
  by (simp add: getOrRetrieve_def Let_def fetchData_def cancelPending_unknown fst_provide
      below_provide children_below)




lemma visit_Some:
  "heap s h = Some w \<Longrightarrow>
   visit u ic h (acc, s) =
     (acc @ fst (getOrRetrieve u ic (w, emit s)),
      s\<lparr>heap := (heap s)(h \<mapsto> fst (snd (getOrRetrieve u ic (w, emit s)))),
        emit := snd (snd (getOrRetrieve u ic (w, emit s)))\<rparr>)"
  by (simp add: visit_def Let_def)

lemma visit_None: "heap s h = None \<Longrightarrow> visit u ic h (acc, s) = (acc, s)"
  by (simp add: visit_def)






lemma fold_callback:
  "fst (fold callback cs acc) =
     fst acc @ map fst (filter (\<lambda>c. \<not> snd c \<or> bubble (fst c) = Some True) cs)"
  by (induction cs arbitrary: acc) (auto simp: callback_def Let_def)




lemmas run_service =
  registered_def queried_def registerDecorationsProvider_def newService_def newWrapper_def
  getDecoration_def reported_def visit_def getOrRetrieve_def fetchData_def provide_def
  cancelPending_def keepItem_def callback_def tst_get_def tst_set_def tst_delete_def
  tst_clear_def children_def tst_findSuperstr_def isDescendant_def Let_def
  onlyFor_def asyncProvider_def syncProvider_def badge_def silent_def


text \<open>
  C8, as the code has it. Three first queries of a resource that was never queried. A provider
  that answers at once has its answer in the result. A provider that answers with a promise,
  asked with children, has the bubbling decoration cached for a descendant in the result. And
  after a change event of the provider has named the resource, the session holds the answer and
  the first query makes no call at all.
\<close>

theorem first_query_counterexample:
  "fst (getDecoration [''a''] False (registered (syncProvider (Some (badge ''M'' None)))))
     = [badge ''M'' None]
   \<and> map_option data (heap (registered (syncProvider (Some (badge ''M'' None)))) 0) = Some []
   \<and> map_option (\<lambda>w. map_of (data w) [''a''])
        (heap (queried (onlyFor [''a'', ''b''] (badge ''M'' (Some True))) [''a'', ''b'']) 0)
       = Some None
   \<and> fst (getDecoration [''a''] True
        (queried (onlyFor [''a'', ''b''] (badge ''M'' (Some True))) [''a'', ''b'']))
       = [badge ''M'' (Some True)]
   \<and> map_option calls (heap (inWrapper 0 (onDidChange (Some [[''a'']]))
        (registered (syncProvider (Some (badge ''M'' None))))) 0) = Some [[''a'']]
   \<and> map_option calls (heap (snd (getDecoration [''a''] False
        (inWrapper 0 (onDidChange (Some [[''a'']]))
          (registered (syncProvider (Some (badge ''M'' None))))))) 0) = Some [[''a'']]"
  by (simp add: run_service inWrapper_def onDidChange_def)

lemma heap_visit_other: "h' \<noteq> h \<Longrightarrow> heap (snd (visit u ic h (acc, s))) h' = heap s h'"
  by (cases "heap s h") (simp_all add: visit_Some visit_None)

lemma fold_visit_unknown:
  assumes "distinct hs"
    and "\<forall>h\<in>set hs. \<forall>w. heap s h = Some w \<longrightarrow> tst_get (data w) u = Undefined"
  shows "fst (fold (visit u ic) hs (acc, s)) =
       acc @ concat (map (\<lambda>h. case heap s h of None \<Rightarrow> []
          | Some w \<Rightarrow> synchronously w u @ (if ic then children (data w) u else [])) hs)
     \<and> (\<forall>h\<in>set hs. \<forall>w. heap s h = Some w \<longrightarrow>
           (\<exists>w'. heap (snd (fold (visit u ic) hs (acc, s))) h = Some w' \<and> calls w' = calls w @ [u]))
     \<and> (\<forall>h. h \<notin> set hs \<longrightarrow> heap (snd (fold (visit u ic) hs (acc, s))) h = heap s h)"
  using assms
proof (induction hs arbitrary: acc s)
  case Nil
  then show ?case by simp
next
  case (Cons x hs)
  let ?v = "visit u ic x (acc, s)"
  let ?f = "fold (visit u ic) hs ?v"
  let ?rep = "\<lambda>s h. case heap s h of None \<Rightarrow> []
          | Some w \<Rightarrow> synchronously w u @ (if ic then children (data w) u else [])"
  have x: "x \<notin> set hs" and d: "distinct hs" using Cons.prems(1) by simp_all
  have same: "heap (snd ?v) h = heap s h" if "h \<in> set hs" for h
    using that x heap_visit_other[of h x u ic acc s] by auto
  have pre: "\<forall>h\<in>set hs. \<forall>w. heap (snd ?v) h = Some w \<longrightarrow> tst_get (data w) u = Undefined"
    using Cons.prems(2) same by simp
  note IH = Cons.IH[OF d pre, of "fst ?v", unfolded prod.collapse]
  have first: "fst ?v = acc @ ?rep s x"
  proof (cases "heap s x")
    case None
    then show ?thesis by (simp add: visit_None)
  next
    case (Some w)
    then have "tst_get (data w) u = Undefined" using Cons.prems(2) by simp
    then show ?thesis using Some
      using getOrRetrieve_unknown[of "(w, emit s)" u ic] by (simp add: visit_Some)
  qed
  have maps: "map (?rep (snd ?v)) hs = map (?rep s) hs"
    by (rule map_cong) (simp_all add: same)
  have r1: "fst (fold (visit u ic) (x # hs) (acc, s)) = acc @ concat (map (?rep s) (x # hs))"
  proof -
    have "fst (fold (visit u ic) (x # hs) (acc, s)) = fst ?f" by simp
    also have "\<dots> = fst ?v @ concat (map (?rep (snd ?v)) hs)" using IH by blast
    also have "\<dots> = (acc @ ?rep s x) @ concat (map (?rep s) hs)" by (simp only: first maps)
    finally show ?thesis by simp
  qed
  have r3: "heap (snd (fold (visit u ic) (x # hs) (acc, s))) h = heap s h" if "h \<notin> set (x # hs)" for h
    using IH that heap_visit_other[of h x u ic acc s] by simp
  have r2: "\<exists>w'. heap (snd (fold (visit u ic) (x # hs) (acc, s))) h = Some w' \<and> calls w' = calls w @ [u]"
    if "h \<in> set (x # hs)" "heap s h = Some w" for h w
  proof (cases "h = x")
    case True
    have u: "tst_get (data w) u = Undefined" using Cons.prems(2) that True by simp
    have "heap (snd ?f) x = heap (snd ?v) x" using IH x by simp
    also have "\<dots> = Some (fst (snd (getOrRetrieve u ic (w, emit s))))"
      using that(2) True by (simp add: visit_Some)
    finally show ?thesis using True u calls_getOrRetrieve[of u ic "(w, emit s)"] by simp
  next
    case False
    then have hin: "h \<in> set hs" using that(1) by simp
    then have "heap (snd ?v) h = Some w" using same that(2) by simp
    then show ?thesis using IH hin by simp
  qed
  show ?case using r1 r2 r3 by blast
qed

lemma unknown_slot: "map_of t u = None \<Longrightarrow> tst_get t u = Undefined"
  by (simp add: tst_get_def)

lemma keep_synchronously:
  "filter (\<lambda>c. \<not> snd c \<or> bubble (fst c) = Some True) (synchronously w u) = synchronously w u"
  by (rule filter_True) (auto simp: synchronously_def resolved_iff split: provided.splits)

lemma keep_children:
  "filter (\<lambda>c. \<not> snd c \<or> bubble (fst c) = Some True) (children t u) =
   filter (\<lambda>c. bubble (fst c) = Some True) (children t u)"
  by (rule filter_cong) (auto dest: child_reports_only)

lemma kept_of_session:
  "map fst (filter (\<lambda>c. \<not> snd c \<or> bubble (fst c) = Some True)
     (synchronously w u @ (if ic then children (data w) u else []))) =
   map fst (synchronously w u) @ (if ic then bubbling (data w) u else [])"
proof -
  have "filter (\<lambda>c. \<not> snd c \<or> bubble (fst c) = Some True)
     (synchronously w u @ (if ic then children (data w) u else [])) =
     synchronously w u @
       (if ic then filter (\<lambda>c. bubble (fst c) = Some True) (children (data w) u) else [])"
    unfolding filter_append keep_synchronously using keep_children[of "data w" u]
    by (cases ic) simp_all
  then show ?thesis by (simp add: bubbling_def)
qed

lemma kept_of_sessions:
  "map fst (filter (\<lambda>c. \<not> snd c \<or> bubble (fst c) = Some True)
     (concat (map (\<lambda>h. case hp h of None \<Rightarrow> []
        | Some w \<Rightarrow> synchronously w u @ (if ic then children (data w) u else [])) hs))) =
   concat (map (\<lambda>h. case hp h of None \<Rightarrow> []
        | Some w \<Rightarrow> map fst (synchronously w u) @ (if ic then bubbling (data w) u else [])) hs)"
proof (induction hs)
  case Nil
  then show ?case by simp
next
  case (Cons h hs)
  show ?case
  proof (cases "hp h")
    case None
    then show ?thesis using Cons by simp
  next
    case (Some w)
    have "map fst (filter (\<lambda>c. \<not> snd c \<or> bubble (fst c) = Some True)
        (concat (map (\<lambda>h. case hp h of None \<Rightarrow> []
          | Some w \<Rightarrow> synchronously w u @ (if ic then children (data w) u else [])) (h # hs)))) =
      map fst (filter (\<lambda>c. \<not> snd c \<or> bubble (fst c) = Some True)
          (synchronously w u @ (if ic then children (data w) u else [])))
      @ map fst (filter (\<lambda>c. \<not> snd c \<or> bubble (fst c) = Some True)
          (concat (map (\<lambda>h. case hp h of None \<Rightarrow> []
            | Some w \<Rightarrow> synchronously w u @ (if ic then children (data w) u else [])) hs)))"
      using Some by simp
    then show ?thesis unfolding kept_of_session Cons.IH using Some by simp
  qed
qed

text \<open>
  C8, amended. When no live session holds a cache entry for the resource, as for a resource that
  was never queried and never named by a change event, \<^verbatim>\<open>getDecoration\<close> calls every registered
  provider exactly once, for this resource, and touches no other session. The result lists, in
  registration order, for each provider the decoration it answers at once, if any, followed, when
  children are asked for, by the bubbling decorations its session holds below the resource. The
  result is empty when every provider answers with a promise and, if children are asked for, no
  session holds a bubbling decoration below the resource.
\<close>

theorem first_query_fetches_once_per_provider:
  assumes "distinct (wrappers s)"
    and "\<forall>h\<in>set (wrappers s). \<forall>w. heap s h = Some w \<longrightarrow> map_of (data w) u = None"
  shows "(\<forall>h\<in>set (wrappers s). \<forall>w. heap s h = Some w \<longrightarrow>
           (\<exists>w'. heap (snd (getDecoration u ic s)) h = Some w' \<and> calls w' = calls w @ [u]))
     \<and> (\<forall>h. h \<notin> set (wrappers s) \<longrightarrow> heap (snd (getDecoration u ic s)) h = heap s h)
     \<and> fst (reported u ic s) =
         concat (map (\<lambda>h. case heap s h of None \<Rightarrow> []
            | Some w \<Rightarrow> synchronously w u @ (if ic then children (data w) u else [])) (wrappers s))
     \<and> fst (getDecoration u ic s) =
         concat (map (\<lambda>h. case heap s h of None \<Rightarrow> []
            | Some w \<Rightarrow> map fst (synchronously w u) @ (if ic then bubbling (data w) u else []))
          (wrappers s))
     \<and> ((\<forall>h\<in>set (wrappers s). \<forall>w. heap s h = Some w \<longrightarrow>
            provider w (calls w) u = Thenable \<and> (ic \<longrightarrow> bubbling (data w) u = [])) \<longrightarrow>
          fst (getDecoration u ic s) = [])"
proof -
  have unknown: "\<forall>h\<in>set (wrappers s). \<forall>w. heap s h = Some w \<longrightarrow> tst_get (data w) u = Undefined"
    using assms(2) unknown_slot by blast
  note f = fold_visit_unknown[OF assms(1) unknown, of ic "[]"]
  have a: "\<forall>h\<in>set (wrappers s). \<forall>w. heap s h = Some w \<longrightarrow>
           (\<exists>w'. heap (snd (getDecoration u ic s)) h = Some w' \<and> calls w' = calls w @ [u])"
    using f by (simp add: getDecoration_def reported_def Let_def)
  have b: "\<forall>h. h \<notin> set (wrappers s) \<longrightarrow> heap (snd (getDecoration u ic s)) h = heap s h"
    using f by (simp add: getDecoration_def reported_def Let_def)
  have c: "fst (reported u ic s) =
         concat (map (\<lambda>h. case heap s h of None \<Rightarrow> []
            | Some w \<Rightarrow> synchronously w u @ (if ic then children (data w) u else [])) (wrappers s))"
    using f by (simp add: reported_def)
  have d: "fst (getDecoration u ic s) =
         concat (map (\<lambda>h. case heap s h of None \<Rightarrow> []
            | Some w \<Rightarrow> map fst (synchronously w u) @ (if ic then bubbling (data w) u else []))
          (wrappers s))"
    by (simp only: getDecoration_def Let_def fold_callback c fst_conv append_Nil kept_of_sessions)
  have e: "fst (getDecoration u ic s) = []"
    if "\<forall>h\<in>set (wrappers s). \<forall>w. heap s h = Some w \<longrightarrow>
            provider w (calls w) u = Thenable \<and> (ic \<longrightarrow> bubbling (data w) u = [])"
    unfolding d using that by (auto simp: synchronously_def split: option.splits)
  show ?thesis using a b c d e by blast
qed

theorem first_query_fetches_once_per_provider_witness:
  "distinct (wrappers (registered asyncProvider))
   \<and> map_option (\<lambda>w. map_of (data w) [''a'']) (heap (registered asyncProvider) 0) = Some None
   \<and> fst (getDecoration [''a''] True (registered asyncProvider)) = []
   \<and> map_option calls (heap (snd (getDecoration [''a''] True (registered asyncProvider))) 0)
       = Some [[''a'']]"
proof -
  let ?s = "registered asyncProvider"
  have d: "distinct (wrappers ?s)" by (simp add: run_service)
  have ws: "wrappers ?s = [0]" by (simp add: run_service)
  have w: "heap ?s 0 = Some (newWrapper asyncProvider)" by (simp add: run_service)
  have u: "\<forall>h\<in>set (wrappers ?s). \<forall>w. heap ?s h = Some w \<longrightarrow> map_of (data w) [''a''] = None"
    using ws w by (simp add: newWrapper_def)
  have t: "\<forall>h\<in>set (wrappers ?s). \<forall>w. heap ?s h = Some w \<longrightarrow>
      provider w (calls w) [''a''] = Thenable \<and> (True \<longrightarrow> bubbling (data w) [''a''] = [])"
    using ws w
    by (simp add: newWrapper_def asyncProvider_def bubbling_def children_def tst_findSuperstr_def)
  note th = first_query_fetches_once_per_provider[OF d u, of True]
  from th t have 1: "fst (getDecoration [''a''] True ?s) = []" by blast
  from th ws w obtain w' where "heap (snd (getDecoration [''a''] True ?s)) 0 = Some w'"
      "calls w' = calls (newWrapper asyncProvider) @ [[''a'']]" by auto
  then have 2: "map_option calls (heap (snd (getDecoration [''a''] True ?s)) 0) = Some [[''a'']]"
    by (simp add: newWrapper_def)
  have 3: "map_option (\<lambda>w. map_of (data w) [''a'']) (heap ?s 0) = Some None"
    using w by (simp add: newWrapper_def)
  show ?thesis using d 1 2 3 by blast
qed

lemmas run_disposal =
  disposeRegistration_def dispose_def knowsAbout_def onDidChangeDecorations_def splice1_def
  inWrapper_def onFulfilled_def onRejected_def

text \<open>
  C6, as the code has it. The provider resolved the resource to nothing, the session holds an entry
  for it, and the event of the disposal answers no for it.
\<close>

theorem resolved_empty_is_not_known_counterexample:
  "map_option data (heap (queried (syncProvider None) [''a'']) 0) = Some [([''a''], Undefined)]
   \<and> length (onDidChangeDecorations (disposeRegistration 0 (queried (syncProvider None) [''a'']))) = 2
   \<and> \<not> last (onDidChangeDecorations (disposeRegistration 0 (queried (syncProvider None) [''a''])))
          [''a'']"
  by (simp add: run_service run_disposal)

lemma findSuperstr_iff:
  "(tst_findSuperstr t u \<noteq> None) = (\<exists>e\<in>set t. isDescendant u (fst e))"
proof -
  have "(tst_findSuperstr t u \<noteq> None) = (filter (\<lambda>e. isDescendant u (fst e)) t \<noteq> [])"
    by (simp add: tst_findSuperstr_def split: list.splits)
  then show ?thesis by (simp add: filter_empty_conv)
qed

lemma disposed_knows_nothing: "\<not> knowsAbout (dispose w) u"
  by (simp add: knowsAbout_def dispose_def tst_clear_def tst_get_def tst_findSuperstr_def)

text \<open>
  C6, amended. The first call of the disposal function fires exactly one event on the public
  stream and none on the other emitter. Its predicate is \<^verbatim>\<open>knowsAbout\<close> of the session, read while
  the event is delivered: yes exactly for a resource whose own slot holds a decoration or a
  pending request, and for a strict ancestor of any entry of the cache, whatever the entry holds;
  no for every other resource, so for a resource resolved to nothing that has no entry below it.
  The predicate reads the cache of the session, which the disposal clears next: read after the
  disposal, it answers no for every resource.
\<close>

theorem disposal_event_is_knowsAbout:
  assumes "heap s h = Some w"
  shows "onDidChangeDecorations (disposeRegistration h s) = onDidChangeDecorations s @ [knowsAbout w]
    \<and> uriEmitter (emit (disposeRegistration h s)) = uriEmitter (emit s)
    \<and> (\<forall>u. knowsAbout w u =
          ((\<exists>d. tst_get (data w) u = Data d) \<or> (\<exists>r. tst_get (data w) u = Request r)
           \<or> (\<exists>e\<in>set (data w). isDescendant u (fst e))))
    \<and> heap (disposeRegistration h s) h = Some (dispose w)
    \<and> (\<forall>u. \<not> knowsAbout (dispose w) u)"
proof -
  have "knowsAbout w u =
          ((\<exists>d. tst_get (data w) u = Data d) \<or> (\<exists>r. tst_get (data w) u = Request r)
           \<or> (\<exists>e\<in>set (data w). isDescendant u (fst e)))" for u
    unfolding knowsAbout_def findSuperstr_iff truthy_cases by blast
  then show ?thesis
    using assms
    by (simp add: disposeRegistration_def onDidChangeDecorations_def disposed_knows_nothing)
qed

theorem disposal_event_is_knowsAbout_witness:
  "map_option data (heap (queried (onlyFor [''a'', ''b''] (badge ''M'' None)) [''a'', ''b'']) 0)
     = Some [([''a'', ''b''], Data (badge ''M'' None))]
   \<and> map (\<lambda>p. map p [[''a'', ''b''], [''a''], [''c'']]) (onDidChangeDecorations (disposeRegistration 0
        (queried (onlyFor [''a'', ''b''] (badge ''M'' None)) [''a'', ''b''])))
     = [[True, True, True], [True, True, False]]
   \<and> map_option data (heap (queried (syncProvider None) [''a'', ''b'']) 0)
     = Some [([''a'', ''b''], Undefined)]
   \<and> map (\<lambda>p. map p [[''a'', ''b''], [''a''], [''c'']]) (onDidChangeDecorations (disposeRegistration 0
        (queried (syncProvider None) [''a'', ''b''])))
     = [[True, True, True], [False, True, False]]"
proof -
  let ?p = "onlyFor [''a'', ''b''] (badge ''M'' None)"
  let ?s = "queried ?p [''a'', ''b'']"
  let ?w = "\<lparr>data = [([''a'', ''b''], Data (badge ''M'' None))], provider = ?p,
      calls = [[''a'', ''b'']], cancelled = [], subscribed = True\<rparr>"
  let ?t = "queried (syncProvider None) [''a'', ''b'']"
  let ?v = "\<lparr>data = [([''a'', ''b''], Undefined)], provider = syncProvider None,
      calls = [[''a'', ''b'']], cancelled = [], subscribed = True\<rparr>"
  have w: "heap ?s 0 = Some ?w" by (simp add: run_service)
  have e: "onDidChangeDecorations ?s = [\<lambda>u. True]"
    by (simp add: run_service onDidChangeDecorations_def)
  have k: "map (knowsAbout ?w) [[''a'', ''b''], [''a''], [''c'']] = [True, True, False]"
    by (simp add: knowsAbout_def tst_get_def tst_findSuperstr_def isDescendant_def)
  have v: "heap ?t 0 = Some ?v" by (simp add: run_service)
  have f: "onDidChangeDecorations ?t = [\<lambda>u. True]"
    by (simp add: run_service onDidChangeDecorations_def)
  have l: "map (knowsAbout ?v) [[''a'', ''b''], [''a''], [''c'']] = [False, True, False]"
    by (simp add: knowsAbout_def tst_get_def tst_findSuperstr_def isDescendant_def)
  from disposal_event_is_knowsAbout[OF w] e k w
  have 1: "map_option data (heap ?s 0) = Some [([''a'', ''b''], Data (badge ''M'' None))]
     \<and> map (\<lambda>p. map p [[''a'', ''b''], [''a''], [''c'']])
          (onDidChangeDecorations (disposeRegistration 0 ?s))
       = [[True, True, True], [True, True, False]]" by simp
  from disposal_event_is_knowsAbout[OF v] f l v
  have 2: "map_option data (heap ?t 0) = Some [([''a'', ''b''], Undefined)]
     \<and> map (\<lambda>p. map p [[''a'', ''b''], [''a''], [''c'']])
          (onDidChangeDecorations (disposeRegistration 0 ?t))
       = [[True, True, True], [False, True, False]]" by simp
  show ?thesis using 1 2 by blast
qed

lemma onFulfilled_flush: "flushEmitter (snd (onFulfilled u r dat s)) = flushEmitter (snd s)"
  by (simp add: onFulfilled_def keepItem_flush)

lemma landing_not_published:
  "onDidChangeDecorations (inWrapper h (onFulfilled u r dat) s) = onDidChangeDecorations s"
  by (cases "heap s h") (simp_all add: inWrapper_def onDidChangeDecorations_def Let_def onFulfilled_flush)

text \<open>
  C3, on the code. A provider answers with a promise; the promise is fulfilled with a decoration
  and \<^verbatim>\<open>_keepItem\<close> fires its notification on \<^verbatim>\<open>_onDidChangeDecorationsDelayed\<close>. The subscribers of
  \<^verbatim>\<open>onDidChangeDecorations\<close> have received the event of the registration and nothing since. In
  any state, for any wrapper, the continuation of a fulfilled promise adds nothing to the public
  stream.
\<close>

theorem notification_not_republished:
  "uriEmitter (emit (queried asyncProvider [''a''])) = []
   \<and> uriEmitter (emit (inWrapper 0 (onFulfilled [''a''] 0 (Some (badge ''M'' None)))
        (queried asyncProvider [''a'']))) = [[''a'']]
   \<and> onDidChangeDecorations (inWrapper 0 (onFulfilled [''a''] 0 (Some (badge ''M'' None)))
        (queried asyncProvider [''a''])) = onDidChangeDecorations (registered asyncProvider)
   \<and> length (onDidChangeDecorations (registered asyncProvider)) = 1
   \<and> (\<forall>h u r dat s.
        onDidChangeDecorations (inWrapper h (onFulfilled u r dat) s) = onDidChangeDecorations s)"
proof -
  have 1: "uriEmitter (emit (queried asyncProvider [''a''])) = []"
    by (simp add: run_service)
  have 2: "uriEmitter (emit (inWrapper 0 (onFulfilled [''a''] 0 (Some (badge ''M'' None)))
        (queried asyncProvider [''a'']))) = [[''a'']]"
    by (simp add: run_service run_disposal)
  have 3: "onDidChangeDecorations (inWrapper 0 (onFulfilled [''a''] 0 (Some (badge ''M'' None)))
        (queried asyncProvider [''a''])) = onDidChangeDecorations (registered asyncProvider)"
    by (simp add: run_service run_disposal)
  have 4: "length (onDidChangeDecorations (registered asyncProvider)) = 1"
    by (simp add: run_service run_disposal)
  have 5: "\<forall>h u r dat s.
        onDidChangeDecorations (inWrapper h (onFulfilled u r dat) s) = onDidChangeDecorations s"
    by (simp add: landing_not_published)
  show ?thesis by (intro conjI 1 2 3 4 5)
qed

text \<open>
  C5, on the code. Two providers are registered and the handle of the first is disposed twice. The
  second call finds the wrapper gone, \<^verbatim>\<open>indexOf\<close> answers \<open>-1\<close>, and \<^verbatim>\<open>splice(-1, 1)\<close> removes the
  last wrapper of the array, the session of the second provider, which is not disposed and stays
  subscribed; one more event is fired.
\<close>

theorem second_disposal_removes_another_session:
  "wrappers twoRegistered = [0, 1]
   \<and> wrappers (disposeRegistration 0 twoRegistered) = [1]
   \<and> wrappers (disposeRegistration 0 (disposeRegistration 0 twoRegistered)) = []
   \<and> length (onDidChangeDecorations (disposeRegistration 0 twoRegistered)) = 3
   \<and> length (onDidChangeDecorations (disposeRegistration 0 (disposeRegistration 0 twoRegistered))) = 4
   \<and> map_option subscribed (heap (disposeRegistration 0 (disposeRegistration 0 twoRegistered)) 1)
       = Some True"
  by (simp add: twoRegistered_def run_service run_disposal)

text \<open>
  The operations of the service keep its invariant: registration appends a new wrapper, disposal
  removes at most one, and queries and continuations leave the array alone.
\<close>

lemma sinv_newService: "sinv newService"
  by (simp add: sinv_def newService_def)

lemma sinv_register: "sinv s \<Longrightarrow> sinv (snd (registerDecorationsProvider p s))"
  by (auto simp: sinv_def registerDecorationsProvider_def Let_def less_Suc_eq)

lemma set_splice1: "set (splice1 xs i) \<subseteq> set xs"
  by (auto simp: splice1_def Let_def dest: in_set_takeD in_set_dropD)

lemma distinct_splice1: "distinct xs \<Longrightarrow> distinct (splice1 xs i)"
  by (simp add: splice1_def Let_def set_take_disj_set_drop_if_distinct)

lemma sinv_dispose: "sinv s \<Longrightarrow> sinv (disposeRegistration h s)"
  using set_splice1[of "wrappers s" "indexOf (wrappers s) h"]
  by (cases "heap s h") (auto simp: sinv_def disposeRegistration_def distinct_splice1)

lemma visit_wrappers:
  "wrappers (snd (visit u ic h r)) = wrappers (snd r) \<and> allocated (snd (visit u ic h r)) = allocated (snd r)"
  by (cases "heap (snd r) h") (simp_all add: visit_def Let_def)

lemma fold_visit_wrappers:
  "wrappers (snd (fold (visit u ic) hs r)) = wrappers (snd r)
   \<and> allocated (snd (fold (visit u ic) hs r)) = allocated (snd r)"
  by (induction hs arbitrary: r) (simp_all add: visit_wrappers)

lemma sinv_getDecoration: "sinv s \<Longrightarrow> sinv (snd (getDecoration u ic s))"
  using fold_visit_wrappers[of u ic "wrappers s" "([], s)"]
  by (simp add: sinv_def getDecoration_def reported_def Let_def)

lemma sinv_inWrapper: "sinv s \<Longrightarrow> sinv (inWrapper h k s)"
  by (cases "heap s h") (simp_all add: sinv_def inWrapper_def Let_def)

section \<open>Properties of the request queue\<close>

lemma in_update: "e \<in> set (AList.update k v t) \<Longrightarrow> e = (k, v) \<or> e \<in> set t"
  by (induction t) (auto split: if_splits)

lemma keys_update: "fst ` set (AList.update k v t) = insert k (fst ` set t)"
  by (induction t) auto

lemma in_delete: "e \<in> set (AList.delete k t) = (e \<in> set t \<and> fst e \<noteq> k)"
  by (induction t) auto

lemma update_fresh: "k \<notin> fst ` set t \<Longrightarrow> AList.update k v t = t @ [(k, v)]"
  by (induction t) auto

lemma delete_filter: "AList.delete k t = filter (\<lambda>e. fst e \<noteq> k) t"
  by (induction t) auto

lemma in_without: "x \<in> set (without k xs) \<Longrightarrow> x \<in> set xs"
  by (auto simp: without_def dest: in_set_takeD in_set_dropD)

lemma enqueue_fields:
  "idPool (snd (enqueue u q)) = Suc (idPool q)"
  "requests (snd (enqueue u q)) = AList.update (Suc (idPool q)) (Suc (idPool q), u) (requests q)"
  "resolver (snd (enqueue u q)) = AList.update (Suc (idPool q)) (Suc (idPool q)) (resolver q)"
  "timer (snd (enqueue u q)) = True"
  "timeouts (snd (enqueue u q)) = (if timer q then timeouts q else Suc (timeouts q))"
  "proxyCalls (snd (enqueue u q)) = proxyCalls q"
  "inflight (snd (enqueue u q)) = inflight q"
  "resolvedWith (snd (enqueue u q)) = resolvedWith q"
  by (simp_all add: enqueue_def processQueue_def Let_def)

lemma qinv_enqueue:
  assumes "qinv q"
  shows "qinv (snd (enqueue u q))"
proof -
  let ?p = "idPool q"
  have t: "timeouts q = (if timer q then 1 else 0)" using assms by (simp add: qinv_def)
  have rq: "\<forall>e\<in>set (requests q). fst (snd e) = fst e \<and> fst e \<le> ?p"
    using assms by (simp add: qinv_def)
  have rs: "\<forall>e\<in>set (resolver q). snd e = fst e \<and> fst e \<le> ?p"
    using assms by (simp add: qinv_def)
  have fl: "\<forall>b\<in>set (inflight q). \<forall>e\<in>set b. snd e \<le> ?p \<and> snd e \<notin> fst ` set (resolver q)"
    using assms by (simp add: qinv_def)
  have rw: "\<forall>x\<in>set (resolvedWith q). fst x \<le> ?p \<and> fst x \<notin> fst ` set (resolver q)"
    using assms by (simp add: qinv_def)
  have 1: "\<forall>e\<in>set (AList.update (Suc ?p) (Suc ?p, u) (requests q)).
      fst (snd e) = fst e \<and> fst e \<le> Suc ?p"
    using rq by (auto dest!: in_update)
  have 2: "\<forall>e\<in>set (AList.update (Suc ?p) (Suc ?p) (resolver q)). snd e = fst e \<and> fst e \<le> Suc ?p"
    using rs by (auto dest!: in_update)
  have 3: "\<forall>b\<in>set (inflight q). \<forall>e\<in>set b.
      snd e \<le> Suc ?p \<and> snd e \<notin> insert (Suc ?p) (fst ` set (resolver q))"
  proof (intro ballI)
    fix b e assume "b \<in> set (inflight q)" "e \<in> set b"
    then have "snd e \<le> ?p \<and> snd e \<notin> fst ` set (resolver q)" using fl by blast
    then show "snd e \<le> Suc ?p \<and> snd e \<notin> insert (Suc ?p) (fst ` set (resolver q))" by auto
  qed
  have 4: "\<forall>x\<in>set (resolvedWith q).
      fst x \<le> Suc ?p \<and> fst x \<notin> insert (Suc ?p) (fst ` set (resolver q))"
  proof (intro ballI)
    fix x assume "x \<in> set (resolvedWith q)"
    then have "fst x \<le> ?p \<and> fst x \<notin> fst ` set (resolver q)" using rw by blast
    then show "fst x \<le> Suc ?p \<and> fst x \<notin> insert (Suc ?p) (fst ` set (resolver q))" by auto
  qed
  have 0: "(if timer q then timeouts q else Suc (timeouts q)) = (if True then 1 else 0)"
    using t by simp
  have 5: "\<not> True \<longrightarrow>
      AList.update (Suc ?p) (Suc ?p, u) (requests q) = [] \<and>
      AList.update (Suc ?p) (Suc ?p) (resolver q) = []" by simp
  show ?thesis
    unfolding qinv_def enqueue_fields keys_update by (intro conjI 0 5 1 2 3 4)
qed

lemma qinv_cancel:
  assumes "qinv q"
  shows "qinv (onCancellationRequested rid q)"
proof -
  let ?q = "onCancellationRequested rid q"
  have f: "idPool ?q = idPool q" "timer ?q = timer q" "timeouts ?q = timeouts q"
    "inflight ?q = inflight q" "resolvedWith ?q = resolvedWith q"
    "requests ?q = AList.delete rid (requests q)" "resolver ?q = AList.delete rid (resolver q)"
    by (simp_all add: onCancellationRequested_def)
  have sub: "fst ` set (AList.delete rid (resolver q)) \<subseteq> fst ` set (resolver q)"
    by (auto simp: in_delete)
  have 1: "timeouts q = (if timer q then 1 else 0)" using assms by (simp add: qinv_def)
  have 2: "\<not> timer q \<longrightarrow> AList.delete rid (requests q) = [] \<and> AList.delete rid (resolver q) = []"
    using assms by (simp add: qinv_def)
  have 3: "\<forall>e\<in>set (AList.delete rid (requests q)). fst (snd e) = fst e \<and> fst e \<le> idPool q"
    using assms by (simp add: qinv_def in_delete)
  have 4: "\<forall>e\<in>set (AList.delete rid (resolver q)). snd e = fst e \<and> fst e \<le> idPool q"
    using assms by (simp add: qinv_def in_delete)
  have 5: "\<forall>b\<in>set (inflight q). \<forall>e\<in>set b.
      snd e \<le> idPool q \<and> snd e \<notin> fst ` set (AList.delete rid (resolver q))"
  proof (intro ballI)
    fix b e assume "b \<in> set (inflight q)" "e \<in> set b"
    then have "snd e \<le> idPool q \<and> snd e \<notin> fst ` set (resolver q)"
      using assms unfolding qinv_def by blast
    then show "snd e \<le> idPool q \<and> snd e \<notin> fst ` set (AList.delete rid (resolver q))"
      using sub by blast
  qed
  have 6: "\<forall>x\<in>set (resolvedWith q).
      fst x \<le> idPool q \<and> fst x \<notin> fst ` set (AList.delete rid (resolver q))"
  proof (intro ballI)
    fix x assume "x \<in> set (resolvedWith q)"
    then have "fst x \<le> idPool q \<and> fst x \<notin> fst ` set (resolver q)"
      using assms unfolding qinv_def by blast
    then show "fst x \<le> idPool q \<and> fst x \<notin> fst ` set (AList.delete rid (resolver q))"
      using sub by blast
  qed
  show ?thesis unfolding qinv_def f by (intro conjI 1 2 3 4 5 6)
qed

lemma qinv_timeout:
  assumes "qinv q"
  shows "qinv (onTimeout q)"
proof (cases "timeouts q = 0")
  case True
  then show ?thesis using assms by (simp add: onTimeout_def)
next
  case False
  let ?q = "onTimeout q"
  have f: "idPool ?q = idPool q" "timer ?q = False" "timeouts ?q = timeouts q - 1"
    "inflight ?q = inflight q @ [resolver q]" "resolvedWith ?q = resolvedWith q"
    "requests ?q = []" "resolver ?q = []"
    using False by (simp_all add: onTimeout_def)
  have 1: "timeouts q - 1 = 0" using assms False by (auto simp: qinv_def split: if_splits)
  have 4: "\<forall>e\<in>set (resolver q). snd e = fst e \<and> fst e \<le> idPool q"
    using assms by (simp add: qinv_def)
  have 5: "\<forall>b\<in>set (inflight q). \<forall>e\<in>set b. snd e \<le> idPool q"
    using assms unfolding qinv_def by blast
  have 6: "\<forall>x\<in>set (resolvedWith q). fst x \<le> idPool q"
    using assms unfolding qinv_def by blast
  have 7: "\<forall>b\<in>set (inflight q @ [resolver q]). \<forall>e\<in>set b. snd e \<le> idPool q"
    using 4 5 by auto
  show ?thesis unfolding qinv_def f using 1 7 6 by simp
qed

lemma qinv_answer:
  assumes "qinv q"
  shows "qinv (onAnswer k dat q)"
proof (cases "k < length (inflight q)")
  case False
  then show ?thesis using assms by (simp add: onAnswer_def)
next
  case True
  let ?q = "onAnswer k dat q"
  have f: "idPool ?q = idPool q" "timer ?q = timer q" "timeouts ?q = timeouts q"
    "inflight ?q = without k (inflight q)"
    "resolvedWith ?q = resolvedWith q @ map (\<lambda>e. (snd e, dat (fst e))) (inflight q ! k)"
    "requests ?q = requests q" "resolver ?q = resolver q"
    using True by (simp_all add: onAnswer_def)
  have b: "inflight q ! k \<in> set (inflight q)" using True by simp
  have fl: "\<forall>b\<in>set (inflight q). \<forall>e\<in>set b. snd e \<le> idPool q \<and> snd e \<notin> fst ` set (resolver q)"
    using assms by (simp add: qinv_def)
  have rw: "\<forall>x\<in>set (resolvedWith q). fst x \<le> idPool q \<and> fst x \<notin> fst ` set (resolver q)"
    using assms by (simp add: qinv_def)
  have new: "\<forall>e\<in>set (inflight q ! k). snd e \<le> idPool q \<and> snd e \<notin> fst ` set (resolver q)"
    using fl b by blast
  have 5: "\<forall>b\<in>set (without k (inflight q)). \<forall>e\<in>set b.
      snd e \<le> idPool q \<and> snd e \<notin> fst ` set (resolver q)"
  proof (intro ballI)
    fix b e assume b: "b \<in> set (without k (inflight q))" and e: "e \<in> set b"
    from in_without[OF b] have "b \<in> set (inflight q)" .
    with fl e show "snd e \<le> idPool q \<and> snd e \<notin> fst ` set (resolver q)" by blast
  qed
  have 6: "\<forall>x\<in>set (resolvedWith q @ map (\<lambda>e. (snd e, dat (fst e))) (inflight q ! k)).
      fst x \<le> idPool q \<and> fst x \<notin> fst ` set (resolver q)"
  proof
    fix x assume "x \<in> set (resolvedWith q @ map (\<lambda>e. (snd e, dat (fst e))) (inflight q ! k))"
    then consider "x \<in> set (resolvedWith q)" | e where "e \<in> set (inflight q ! k)" "fst x = snd e"
      by auto
    then show "fst x \<le> idPool q \<and> fst x \<notin> fst ` set (resolver q)"
    proof cases
      case 1
      then show ?thesis using rw by blast
    next
      case 2
      then show ?thesis using new by simp
    qed
  qed
  have 1: "timeouts q = (if timer q then 1 else 0)" using assms by (simp add: qinv_def)
  have 2: "\<not> timer q \<longrightarrow> requests q = [] \<and> resolver q = []" using assms by (simp add: qinv_def)
  have 3: "\<forall>e\<in>set (requests q). fst (snd e) = fst e \<and> fst e \<le> idPool q"
    using assms by (simp add: qinv_def)
  have 4: "\<forall>e\<in>set (resolver q). snd e = fst e \<and> fst e \<le> idPool q"
    using assms by (simp add: qinv_def)
  show ?thesis unfolding qinv_def f by (intro conjI 1 2 3 4 5 6)
qed

lemma qinv_failure:
  assumes "qinv q"
  shows "qinv (onFailure k q)"
proof (cases "k < length (inflight q)")
  case False
  then show ?thesis using assms by (simp add: onFailure_def)
next
  case True
  let ?q = "onFailure k q"
  have f: "idPool ?q = idPool q" "timer ?q = timer q" "timeouts ?q = timeouts q"
    "inflight ?q = without k (inflight q)" "resolvedWith ?q = resolvedWith q"
    "requests ?q = requests q" "resolver ?q = resolver q"
    using True by (simp_all add: onFailure_def)
  have fl: "\<forall>b\<in>set (inflight q). \<forall>e\<in>set b. snd e \<le> idPool q \<and> snd e \<notin> fst ` set (resolver q)"
    using assms by (simp add: qinv_def)
  have 5: "\<forall>b\<in>set (without k (inflight q)). \<forall>e\<in>set b.
      snd e \<le> idPool q \<and> snd e \<notin> fst ` set (resolver q)"
  proof (intro ballI)
    fix b e assume b: "b \<in> set (without k (inflight q))" and e: "e \<in> set b"
    from in_without[OF b] have "b \<in> set (inflight q)" .
    with fl e show "snd e \<le> idPool q \<and> snd e \<notin> fst ` set (resolver q)" by blast
  qed
  have 1: "timeouts q = (if timer q then 1 else 0)" using assms by (simp add: qinv_def)
  have 2: "\<not> timer q \<longrightarrow> requests q = [] \<and> resolver q = []" using assms by (simp add: qinv_def)
  have 3: "\<forall>e\<in>set (requests q). fst (snd e) = fst e \<and> fst e \<le> idPool q"
    using assms by (simp add: qinv_def)
  have 4: "\<forall>e\<in>set (resolver q). snd e = fst e \<and> fst e \<le> idPool q"
    using assms by (simp add: qinv_def)
  have 6: "\<forall>x\<in>set (resolvedWith q). fst x \<le> idPool q \<and> fst x \<notin> fst ` set (resolver q)"
    using assms by (simp add: qinv_def)
  show ?thesis unfolding qinv_def f by (intro conjI 1 2 3 4 5 6)
qed

lemma qinv_qstep: "qinv q \<Longrightarrow> qinv (qstep op q)"
  by (cases op) (simp_all add: qinv_enqueue qinv_cancel qinv_timeout qinv_answer qinv_failure)

lemma qinv_qrun: "qinv q \<Longrightarrow> qinv (qrun ops q)"
  unfolding qrun_def by (induction ops arbitrary: q) (simp_all add: qinv_qstep)

lemma qinv_newQueue: "qinv newQueue"
  by (simp add: qinv_def newQueue_def)


lemma deadI:
  "rid \<le> idPool q \<Longrightarrow> rid \<notin> fst ` snd ` set (requests q) \<Longrightarrow> rid \<notin> snd ` set (resolver q) \<Longrightarrow>
   (\<forall>b\<in>set (inflight q). rid \<notin> snd ` set b) \<Longrightarrow> rid \<notin> fst ` set (resolvedWith q) \<Longrightarrow>
   (\<forall>c\<in>set (drop n (proxyCalls q)). rid \<notin> fst ` set c) \<Longrightarrow> dead n rid q"
  by (simp add: dead_def)

lemma deadD:
  assumes "dead n rid q"
  shows "rid \<le> idPool q" "rid \<notin> fst ` snd ` set (requests q)" "rid \<notin> snd ` set (resolver q)"
    "\<forall>b\<in>set (inflight q). rid \<notin> snd ` set b" "rid \<notin> fst ` set (resolvedWith q)"
    "\<forall>c\<in>set (drop n (proxyCalls q)). rid \<notin> fst ` set c"
  using assms by (simp_all add: dead_def)

lemma dead_enqueue:
  assumes "dead n rid q"
  shows "dead n rid (snd (enqueue u q))"
proof (rule deadI)
  note d = deadD[OF assms]
  have ne: "rid \<noteq> Suc (idPool q)" using d(1) by simp
  show "rid \<le> idPool (snd (enqueue u q))" using d(1) by (simp add: enqueue_fields)
  show "rid \<notin> fst ` snd ` set (requests (snd (enqueue u q)))"
  proof
    assume "rid \<in> fst ` snd ` set (requests (snd (enqueue u q)))"
    then obtain e where e: "e \<in> set (AList.update (Suc (idPool q)) (Suc (idPool q), u) (requests q))"
        "rid = fst (snd e)"
      by (auto simp: enqueue_fields)
    from in_update[OF e(1)] e(2) ne d(2) show False by force
  qed
  show "rid \<notin> snd ` set (resolver (snd (enqueue u q)))"
  proof
    assume "rid \<in> snd ` set (resolver (snd (enqueue u q)))"
    then obtain e where e: "e \<in> set (AList.update (Suc (idPool q)) (Suc (idPool q)) (resolver q))"
        "rid = snd e"
      by (auto simp: enqueue_fields)
    from in_update[OF e(1)] e(2) ne d(3) show False by force
  qed
  show "\<forall>b\<in>set (inflight (snd (enqueue u q))). rid \<notin> snd ` set b"
    using d(4) by (simp add: enqueue_fields)
  show "rid \<notin> fst ` set (resolvedWith (snd (enqueue u q)))"
    using d(5) by (simp add: enqueue_fields)
  show "\<forall>c\<in>set (drop n (proxyCalls (snd (enqueue u q)))). rid \<notin> fst ` set c"
    using d(6) by (simp add: enqueue_fields)
qed

lemma dead_cancel:
  assumes "dead n rid q"
  shows "dead n rid (onCancellationRequested i q)"
proof (rule deadI)
  note d = deadD[OF assms]
  let ?q = "onCancellationRequested i q"
  have f: "idPool ?q = idPool q" "inflight ?q = inflight q" "resolvedWith ?q = resolvedWith q"
    "proxyCalls ?q = proxyCalls q"
    "requests ?q = AList.delete i (requests q)" "resolver ?q = AList.delete i (resolver q)"
    by (simp_all add: onCancellationRequested_def)
  show "rid \<le> idPool ?q" using d(1) by (simp add: f)
  show "rid \<notin> fst ` snd ` set (requests ?q)" using d(2) by (force simp: f in_delete)
  show "rid \<notin> snd ` set (resolver ?q)" using d(3) by (auto simp: f in_delete)
  show "\<forall>b\<in>set (inflight ?q). rid \<notin> snd ` set b" using d(4) by (simp add: f)
  show "rid \<notin> fst ` set (resolvedWith ?q)" using d(5) by (simp add: f)
  show "\<forall>c\<in>set (drop n (proxyCalls ?q)). rid \<notin> fst ` set c" using d(6) by (simp add: f)
qed

lemma dead_timeout:
  assumes "dead n rid q"
  shows "dead n rid (onTimeout q)"
proof (cases "timeouts q = 0")
  case True
  then show ?thesis using assms by (simp add: onTimeout_def)
next
  case False
  note d = deadD[OF assms]
  let ?q = "onTimeout q"
  have f: "idPool ?q = idPool q" "inflight ?q = inflight q @ [resolver q]"
    "resolvedWith ?q = resolvedWith q" "proxyCalls ?q = proxyCalls q @ [map snd (requests q)]"
    "requests ?q = []" "resolver ?q = []"
    using False by (simp_all add: onTimeout_def)
  show ?thesis
  proof (rule deadI)
    show "rid \<le> idPool ?q" using d(1) by (simp add: f)
    show "rid \<notin> fst ` snd ` set (requests ?q)" by (simp add: f)
    show "rid \<notin> snd ` set (resolver ?q)" by (simp add: f)
    show "\<forall>b\<in>set (inflight ?q). rid \<notin> snd ` set b" using d(3,4) by (simp add: f)
    show "rid \<notin> fst ` set (resolvedWith ?q)" using d(5) by (simp add: f)
    show "\<forall>c\<in>set (drop n (proxyCalls ?q)). rid \<notin> fst ` set c"
    proof
      fix c assume "c \<in> set (drop n (proxyCalls ?q))"
      then have "c \<in> set (drop n (proxyCalls q)) \<or> c = map snd (requests q)"
        by (auto simp: f dest: in_set_dropD)
      then show "rid \<notin> fst ` set c"
      proof
        assume "c \<in> set (drop n (proxyCalls q))"
        then show ?thesis using d(6) by blast
      next
        assume "c = map snd (requests q)"
        then show ?thesis using d(2) by simp
      qed
    qed
  qed
qed

lemma dead_answer:
  assumes "dead n rid q"
  shows "dead n rid (onAnswer k dat q)"
proof (cases "k < length (inflight q)")
  case False
  then show ?thesis using assms by (simp add: onAnswer_def)
next
  case True
  note d = deadD[OF assms]
  let ?q = "onAnswer k dat q"
  have f: "idPool ?q = idPool q" "inflight ?q = without k (inflight q)"
    "resolvedWith ?q = resolvedWith q @ map (\<lambda>e. (snd e, dat (fst e))) (inflight q ! k)"
    "proxyCalls ?q = proxyCalls q" "requests ?q = requests q" "resolver ?q = resolver q"
    using True by (simp_all add: onAnswer_def)
  have b: "inflight q ! k \<in> set (inflight q)" using True by simp
  show ?thesis
  proof (rule deadI)
    show "rid \<le> idPool ?q" using d(1) by (simp add: f)
    show "rid \<notin> fst ` snd ` set (requests ?q)" using d(2) by (simp add: f)
    show "rid \<notin> snd ` set (resolver ?q)" using d(3) by (simp add: f)
    show "\<forall>b\<in>set (inflight ?q). rid \<notin> snd ` set b"
    proof
      fix c assume "c \<in> set (inflight ?q)"
      then have "c \<in> set (inflight q)" unfolding f by (rule in_without)
      then show "rid \<notin> snd ` set c" using d(4) by blast
    qed
    have "rid \<notin> snd ` set (inflight q ! k)" using d(4) b by blast
    then show "rid \<notin> fst ` set (resolvedWith ?q)" using d(5) by (force simp: f image_image)
    show "\<forall>c\<in>set (drop n (proxyCalls ?q)). rid \<notin> fst ` set c" using d(6) by (simp add: f)
  qed
qed

lemma dead_failure:
  assumes "dead n rid q"
  shows "dead n rid (onFailure k q)"
proof (cases "k < length (inflight q)")
  case False
  then show ?thesis using assms by (simp add: onFailure_def)
next
  case True
  note d = deadD[OF assms]
  let ?q = "onFailure k q"
  have f: "idPool ?q = idPool q" "inflight ?q = without k (inflight q)"
    "resolvedWith ?q = resolvedWith q"
    "proxyCalls ?q = proxyCalls q" "requests ?q = requests q" "resolver ?q = resolver q"
    using True by (simp_all add: onFailure_def)
  show ?thesis
  proof (rule deadI)
    show "rid \<le> idPool ?q" using d(1) by (simp add: f)
    show "rid \<notin> fst ` snd ` set (requests ?q)" using d(2) by (simp add: f)
    show "rid \<notin> snd ` set (resolver ?q)" using d(3) by (simp add: f)
    show "\<forall>b\<in>set (inflight ?q). rid \<notin> snd ` set b"
    proof
      fix c assume "c \<in> set (inflight ?q)"
      then have "c \<in> set (inflight q)" unfolding f by (rule in_without)
      then show "rid \<notin> snd ` set c" using d(4) by blast
    qed
    show "rid \<notin> fst ` set (resolvedWith ?q)" using d(5) by (simp add: f)
    show "\<forall>c\<in>set (drop n (proxyCalls ?q)). rid \<notin> fst ` set c" using d(6) by (simp add: f)
  qed
qed

lemma dead_qstep: "dead n rid q \<Longrightarrow> dead n rid (qstep op q)"
  by (cases op) (simp_all add: dead_enqueue dead_cancel dead_timeout dead_answer dead_failure)

lemma dead_qrun: "dead n rid q \<Longrightarrow> dead n rid (qrun ops q)"
  unfolding qrun_def by (induction ops arbitrary: q) (simp_all add: dead_qstep)

lemma dead_after_cancel:
  assumes "qinv q" and "rid \<in> fst ` set (resolver q)"
  shows "dead (length (proxyCalls q)) rid (onCancellationRequested rid q)"
proof (rule deadI)
  let ?q = "onCancellationRequested rid q"
  have f: "idPool ?q = idPool q" "inflight ?q = inflight q" "resolvedWith ?q = resolvedWith q"
    "proxyCalls ?q = proxyCalls q"
    "requests ?q = AList.delete rid (requests q)" "resolver ?q = AList.delete rid (resolver q)"
    by (simp_all add: onCancellationRequested_def)
  have rq: "\<forall>e\<in>set (requests q). fst (snd e) = fst e \<and> fst e \<le> idPool q"
    using assms(1) by (simp add: qinv_def)
  have rs: "\<forall>e\<in>set (resolver q). snd e = fst e \<and> fst e \<le> idPool q"
    using assms(1) by (simp add: qinv_def)
  have fl: "\<forall>b\<in>set (inflight q). \<forall>e\<in>set b. snd e \<le> idPool q \<and> snd e \<notin> fst ` set (resolver q)"
    using assms(1) by (simp add: qinv_def)
  have rw: "\<forall>x\<in>set (resolvedWith q). fst x \<le> idPool q \<and> fst x \<notin> fst ` set (resolver q)"
    using assms(1) by (simp add: qinv_def)
  show "rid \<le> idPool ?q" using rs assms(2) by (auto simp: f)
  show "rid \<notin> fst ` snd ` set (requests ?q)"
  proof
    assume "rid \<in> fst ` snd ` set (requests ?q)"
    then obtain e where "e \<in> set (requests q)" "fst e \<noteq> rid" "rid = fst (snd e)"
      by (auto simp: f in_delete)
    then show False using rq by auto
  qed
  show "rid \<notin> snd ` set (resolver ?q)"
  proof
    assume "rid \<in> snd ` set (resolver ?q)"
    then obtain e where "e \<in> set (resolver q)" "fst e \<noteq> rid" "rid = snd e"
      by (auto simp: f in_delete)
    then show False using rs by auto
  qed
  show "\<forall>b\<in>set (inflight ?q). rid \<notin> snd ` set b"
  proof
    fix b assume b: "b \<in> set (inflight ?q)"
    show "rid \<notin> snd ` set b"
    proof
      assume "rid \<in> snd ` set b"
      then obtain e where "e \<in> set b" "rid = snd e" by auto
      then show False using fl b assms(2) unfolding f by blast
    qed
  qed
  show "rid \<notin> fst ` set (resolvedWith ?q)"
  proof
    assume "rid \<in> fst ` set (resolvedWith ?q)"
    then obtain x where "x \<in> set (resolvedWith q)" "rid = fst x" by (auto simp: f)
    then show False using rw assms(2) by blast
  qed
  show "\<forall>c\<in>set (drop (length (proxyCalls q)) (proxyCalls ?q)). rid \<notin> fst ` set c"
    by (simp add: f)
qed


lemmas run_queue =
  qrun_def enqueue_def processQueue_def onCancellationRequested_def onTimeout_def onAnswer_def
  onFailure_def newQueue_def without_def Let_def

text \<open>
  C10, as the code has it. The request is enqueued, the timeout runs and captures the maps, the
  token fires, the call answers: the listener of the token deletes from the new, empty maps, the
  captured map still holds the waiter, and the waiter is resolved.
\<close>

theorem cancelled_after_flush_is_resolved_counterexample:
  "resolvedWith (qrun [Enqueue [''a''], Timeout, Cancel 1, Answer 0 (\<lambda>i. Some ''badge'')] newQueue)
     = [(1, Some ''badge'')]"
  by (simp add: run_queue)

lemma keys_delete: "fst ` set (AList.delete k t) = fst ` set t - {k}"
  by (induction t) auto

lemma delete_absent: "k \<notin> fst ` set t \<Longrightarrow> AList.delete k t = t"
  by (induction t) auto

lemma qkeys_newQueue: "qkeys newQueue"
  by (simp add: qkeys_def newQueue_def)

lemma qkeys_enqueue:
  assumes "qkeys q"
  shows "qkeys (snd (enqueue u q))"
proof -
  have 1: "insert (Suc (idPool q)) (fst ` set (requests q)) =
      insert (Suc (idPool q)) (fst ` set (resolver q))"
    using assms by (simp add: qkeys_def)
  have 2: "\<forall>e\<in>set (AList.update (Suc (idPool q)) (Suc (idPool q)) (resolver q)). snd e = fst e"
    using assms by (auto simp: qkeys_def dest!: in_update)
  have 3: "\<forall>b\<in>set (inflight q). \<forall>e\<in>set b. snd e = fst e"
    using assms by (simp add: qkeys_def)
  show ?thesis unfolding qkeys_def enqueue_fields keys_update by (intro conjI 1 2 3)
qed

lemma qkeys_cancel:
  assumes "qkeys q"
  shows "qkeys (onCancellationRequested i q)"
proof -
  let ?q = "onCancellationRequested i q"
  have f: "inflight ?q = inflight q"
    "requests ?q = AList.delete i (requests q)" "resolver ?q = AList.delete i (resolver q)"
    by (simp_all add: onCancellationRequested_def)
  have 1: "fst ` set (requests q) - {i} = fst ` set (resolver q) - {i}"
    using assms by (simp add: qkeys_def)
  have 2: "\<forall>e\<in>set (AList.delete i (resolver q)). snd e = fst e"
    using assms by (simp add: qkeys_def in_delete)
  have 3: "\<forall>b\<in>set (inflight q). \<forall>e\<in>set b. snd e = fst e"
    using assms by (simp add: qkeys_def)
  show ?thesis unfolding qkeys_def f keys_delete by (intro conjI 1 2 3)
qed

lemma qkeys_timeout:
  assumes "qkeys q"
  shows "qkeys (onTimeout q)"
proof (cases "timeouts q = 0")
  case True
  then show ?thesis using assms by (simp add: onTimeout_def)
next
  case False
  let ?q = "onTimeout q"
  have f: "inflight ?q = inflight q @ [resolver q]" "requests ?q = []" "resolver ?q = []"
    using False by (simp_all add: onTimeout_def)
  have 2: "\<forall>e\<in>set (resolver q). snd e = fst e" using assms by (simp add: qkeys_def)
  have 3: "\<forall>b\<in>set (inflight q). \<forall>e\<in>set b. snd e = fst e" using assms by (simp add: qkeys_def)
  have 4: "\<forall>b\<in>set (inflight q @ [resolver q]). \<forall>e\<in>set b. snd e = fst e"
    using 2 3 by auto
  show ?thesis unfolding qkeys_def f using 4 by simp
qed

lemma qkeys_answer:
  assumes "qkeys q"
  shows "qkeys (onAnswer k dat q)"
proof (cases "k < length (inflight q)")
  case False
  then show ?thesis using assms by (simp add: onAnswer_def)
next
  case True
  let ?q = "onAnswer k dat q"
  have f: "inflight ?q = without k (inflight q)" "requests ?q = requests q" "resolver ?q = resolver q"
    using True by (simp_all add: onAnswer_def)
  have 1: "fst ` set (requests q) = fst ` set (resolver q)" using assms by (simp add: qkeys_def)
  have 2: "\<forall>e\<in>set (resolver q). snd e = fst e" using assms by (simp add: qkeys_def)
  have fl: "\<forall>b\<in>set (inflight q). \<forall>e\<in>set b. snd e = fst e" using assms by (simp add: qkeys_def)
  have 3: "\<forall>b\<in>set (without k (inflight q)). \<forall>e\<in>set b. snd e = fst e"
  proof (intro ballI)
    fix b e assume b: "b \<in> set (without k (inflight q))" and e: "e \<in> set b"
    from in_without[OF b] have "b \<in> set (inflight q)" .
    with fl e show "snd e = fst e" by blast
  qed
  show ?thesis unfolding qkeys_def f by (intro conjI 1 2 3)
qed

lemma qkeys_failure:
  assumes "qkeys q"
  shows "qkeys (onFailure k q)"
proof (cases "k < length (inflight q)")
  case False
  then show ?thesis using assms by (simp add: onFailure_def)
next
  case True
  let ?q = "onFailure k q"
  have f: "inflight ?q = without k (inflight q)" "requests ?q = requests q" "resolver ?q = resolver q"
    using True by (simp_all add: onFailure_def)
  have 1: "fst ` set (requests q) = fst ` set (resolver q)" using assms by (simp add: qkeys_def)
  have 2: "\<forall>e\<in>set (resolver q). snd e = fst e" using assms by (simp add: qkeys_def)
  have fl: "\<forall>b\<in>set (inflight q). \<forall>e\<in>set b. snd e = fst e" using assms by (simp add: qkeys_def)
  have 3: "\<forall>b\<in>set (without k (inflight q)). \<forall>e\<in>set b. snd e = fst e"
  proof (intro ballI)
    fix b e assume b: "b \<in> set (without k (inflight q))" and e: "e \<in> set b"
    from in_without[OF b] have "b \<in> set (inflight q)" .
    with fl e show "snd e = fst e" by blast
  qed
  show ?thesis unfolding qkeys_def f by (intro conjI 1 2 3)
qed

lemma qkeys_qstep: "qkeys q \<Longrightarrow> qkeys (qstep op q)"
  by (cases op) (simp_all add: qkeys_enqueue qkeys_cancel qkeys_timeout qkeys_answer qkeys_failure)

lemma qkeys_qrun: "qkeys q \<Longrightarrow> qkeys (qrun ops q)"
  unfolding qrun_def by (induction ops arbitrary: q) (simp_all add: qkeys_qstep)

lemma cancel_in_flight:
  assumes "qinv q" and "qkeys q" and "k < length (inflight q)"
    and "rid \<in> fst ` set (inflight q ! k)"
  shows "rid \<notin> fst ` set (requests q)" "rid \<notin> fst ` set (resolver q)"
    "onCancellationRequested rid q = q"
    "(rid, dat rid) \<in> set (resolvedWith (onAnswer k dat q))"
proof -
  from assms(4) obtain e where e: "e \<in> set (inflight q ! k)" "fst e = rid" by auto
  have b: "inflight q ! k \<in> set (inflight q)" using assms(3) by simp
  have same: "snd e = rid" using assms(2) b e unfolding qkeys_def by auto
  have "snd e \<notin> fst ` set (resolver q)" using assms(1) b e(1) unfolding qinv_def by blast
  then show r: "rid \<notin> fst ` set (resolver q)" using same by simp
  then show q: "rid \<notin> fst ` set (requests q)" using assms(2) by (simp add: qkeys_def)
  show "onCancellationRequested rid q = q"
    by (simp add: onCancellationRequested_def delete_absent[OF q] delete_absent[OF r])
  have "(snd e, dat (fst e)) \<in> set (map (\<lambda>e. (snd e, dat (fst e))) (inflight q ! k))"
    using e(1) by auto
  then show "(rid, dat rid) \<in> set (resolvedWith (onAnswer k dat q))"
    using assms(3) e(2) same by (simp add: onAnswer_def)
qed

text \<open>
  C10, amended. In every queue reached from a new one: when the token of a request fires while
  the request is still in the live maps, that is before the timeout has run, the request and its
  waiter are removed and nothing is delivered; whatever happens afterwards, the waiter is never
  resolved and no later call carries the request. A cancellation never changes the maps a call
  has captured, and an answer resolves exactly the waiters of the map its call captured. So when
  the token fires after the timeout has run, while the call is in flight, the request is in
  neither live map, the cancellation changes nothing, and the answer resolves the waiter.
\<close>

theorem cancelled_before_flush_never_resolved:
  assumes "q = qrun ops0 newQueue"
  shows "(rid \<in> fst ` set (resolver q) \<longrightarrow>
       rid \<notin> fst ` set (requests (onCancellationRequested rid q))
       \<and> rid \<notin> fst ` set (resolver (onCancellationRequested rid q))
       \<and> rid \<notin> fst ` set (resolvedWith q)
       \<and> resolvedWith (onCancellationRequested rid q) = resolvedWith q
       \<and> (\<forall>ops. rid \<notin> fst ` set (resolvedWith (qrun ops (onCancellationRequested rid q)))
             \<and> (\<forall>c\<in>set (drop (length (proxyCalls q))
                          (proxyCalls (qrun ops (onCancellationRequested rid q)))).
                   rid \<notin> fst ` set c)))
    \<and> (\<forall>i. inflight (onCancellationRequested i q) = inflight q)
    \<and> (\<forall>k dat. k < length (inflight q) \<longrightarrow>
          resolvedWith (onAnswer k dat q) =
            resolvedWith q @ map (\<lambda>e. (snd e, dat (fst e))) (inflight q ! k))
    \<and> (\<forall>k. k < length (inflight q) \<and> rid \<in> fst ` set (inflight q ! k) \<longrightarrow>
          rid \<notin> fst ` set (requests q) \<and> rid \<notin> fst ` set (resolver q)
          \<and> onCancellationRequested rid q = q
          \<and> (\<forall>dat. (rid, dat rid)
                \<in> set (resolvedWith (onAnswer k dat (onCancellationRequested rid q)))))"
proof -
  have inv: "qinv q" unfolding assms(1) by (rule qinv_qrun) (rule qinv_newQueue)
  have keys: "qkeys q" unfolding assms(1) by (rule qkeys_qrun) (rule qkeys_newQueue)
  have A: "rid \<in> fst ` set (resolver q) \<longrightarrow>
       rid \<notin> fst ` set (requests (onCancellationRequested rid q))
       \<and> rid \<notin> fst ` set (resolver (onCancellationRequested rid q))
       \<and> rid \<notin> fst ` set (resolvedWith q)
       \<and> resolvedWith (onCancellationRequested rid q) = resolvedWith q
       \<and> (\<forall>ops. rid \<notin> fst ` set (resolvedWith (qrun ops (onCancellationRequested rid q)))
             \<and> (\<forall>c\<in>set (drop (length (proxyCalls q))
                          (proxyCalls (qrun ops (onCancellationRequested rid q)))).
                   rid \<notin> fst ` set c))"
  proof (rule impI)
    assume live: "rid \<in> fst ` set (resolver q)"
    have 1: "rid \<notin> fst ` set (requests (onCancellationRequested rid q))"
      by (auto simp: onCancellationRequested_def in_delete)
    have 2: "rid \<notin> fst ` set (resolver (onCancellationRequested rid q))"
      by (auto simp: onCancellationRequested_def in_delete)
    have 3: "rid \<notin> fst ` set (resolvedWith q)"
    proof
      assume "rid \<in> fst ` set (resolvedWith q)"
      then obtain x where x: "x \<in> set (resolvedWith q)" "fst x = rid" by auto
      have "\<forall>x\<in>set (resolvedWith q). fst x \<le> idPool q \<and> fst x \<notin> fst ` set (resolver q)"
        using inv by (simp add: qinv_def)
      with x live show False by blast
    qed
    have 4: "resolvedWith (onCancellationRequested rid q) = resolvedWith q"
      by (simp add: onCancellationRequested_def)
    note d = dead_qrun[OF dead_after_cancel[OF inv live]]
    have 5: "\<forall>ops. rid \<notin> fst ` set (resolvedWith (qrun ops (onCancellationRequested rid q)))
          \<and> (\<forall>c\<in>set (drop (length (proxyCalls q))
                       (proxyCalls (qrun ops (onCancellationRequested rid q)))).
                rid \<notin> fst ` set c)"
    proof (intro allI conjI)
      fix ops
      show "rid \<notin> fst ` set (resolvedWith (qrun ops (onCancellationRequested rid q)))"
        by (rule deadD(5)[OF d[of ops]])
      show "\<forall>c\<in>set (drop (length (proxyCalls q))
                       (proxyCalls (qrun ops (onCancellationRequested rid q)))).
                rid \<notin> fst ` set c"
        by (rule deadD(6)[OF d[of ops]])
    qed
    show "rid \<notin> fst ` set (requests (onCancellationRequested rid q))
       \<and> rid \<notin> fst ` set (resolver (onCancellationRequested rid q))
       \<and> rid \<notin> fst ` set (resolvedWith q)
       \<and> resolvedWith (onCancellationRequested rid q) = resolvedWith q
       \<and> (\<forall>ops. rid \<notin> fst ` set (resolvedWith (qrun ops (onCancellationRequested rid q)))
             \<and> (\<forall>c\<in>set (drop (length (proxyCalls q))
                          (proxyCalls (qrun ops (onCancellationRequested rid q)))).
                   rid \<notin> fst ` set c))"
      by (intro conjI 1 2 3 4 5)
  qed
  have B: "\<forall>i. inflight (onCancellationRequested i q) = inflight q"
    by (simp add: onCancellationRequested_def)
  have C: "\<forall>k dat. k < length (inflight q) \<longrightarrow>
          resolvedWith (onAnswer k dat q) =
            resolvedWith q @ map (\<lambda>e. (snd e, dat (fst e))) (inflight q ! k)"
    by (simp add: onAnswer_def)
  have D: "\<forall>k. k < length (inflight q) \<and> rid \<in> fst ` set (inflight q ! k) \<longrightarrow>
          rid \<notin> fst ` set (requests q) \<and> rid \<notin> fst ` set (resolver q)
          \<and> onCancellationRequested rid q = q
          \<and> (\<forall>dat. (rid, dat rid)
                \<in> set (resolvedWith (onAnswer k dat (onCancellationRequested rid q))))"
  proof (intro allI impI)
    fix k assume h: "k < length (inflight q) \<and> rid \<in> fst ` set (inflight q ! k)"
    then have k: "k < length (inflight q)" and r: "rid \<in> fst ` set (inflight q ! k)" by simp_all
    note c = cancel_in_flight[OF inv keys k r]
    have "\<forall>dat. (rid, dat rid)
                \<in> set (resolvedWith (onAnswer k dat (onCancellationRequested rid q)))"
      unfolding c(3) using c(4) by (rule allI)
    then show "rid \<notin> fst ` set (requests q) \<and> rid \<notin> fst ` set (resolver q)
          \<and> onCancellationRequested rid q = q
          \<and> (\<forall>dat. (rid, dat rid)
                \<in> set (resolvedWith (onAnswer k dat (onCancellationRequested rid q))))"
      by (intro conjI c(1) c(2) c(3))
  qed
  show ?thesis by (rule conjI[OF A conjI[OF B conjI[OF C D]]])
qed

theorem cancelled_before_flush_never_resolved_witness:
  "2 \<in> fst ` set (resolver (qrun [Enqueue [''a''], Enqueue [''b'']] (newQueue :: string DecorationRequestsQueue)))
   \<and> 2 \<notin> fst ` set (resolvedWith (qrun [Timeout, Answer 0 (\<lambda>i. Some ''badge'')]
        (onCancellationRequested 2 (qrun [Enqueue [''a''], Enqueue [''b'']] (newQueue :: string DecorationRequestsQueue)))))
   \<and> resolvedWith (qrun [Timeout, Answer 0 (\<lambda>i. Some ''badge'')]
        (onCancellationRequested 2 (qrun [Enqueue [''a''], Enqueue [''b'']] (newQueue :: string DecorationRequestsQueue))))
       = [(1, Some ''badge'')]
   \<and> inflight (qrun [Enqueue [''a''], Timeout] (newQueue :: string DecorationRequestsQueue))
       = [[(1, 1)]]
   \<and> onCancellationRequested 1
        (qrun [Enqueue [''a''], Timeout] (newQueue :: string DecorationRequestsQueue))
       = qrun [Enqueue [''a''], Timeout] (newQueue :: string DecorationRequestsQueue)
   \<and> (1, Some ''badge'') \<in> set (resolvedWith (onAnswer 0 (\<lambda>i. Some ''badge'')
        (onCancellationRequested 1 (qrun [Enqueue [''a''], Timeout] (newQueue :: string DecorationRequestsQueue)))))"
proof -
  let ?q = "qrun [Enqueue [''a''], Enqueue [''b'']] (newQueue :: string DecorationRequestsQueue)"
  let ?f = "qrun [Enqueue [''a''], Timeout] (newQueue :: string DecorationRequestsQueue)"
  have l: "2 \<in> fst ` set (resolver ?q)" by (simp add: run_queue)
  note th2 = cancelled_before_flush_never_resolved[OF refl, where rid = 2]
  from th2[THEN conjunct1, THEN mp, OF l]
  have "\<forall>ops. 2 \<notin> fst ` set (resolvedWith (qrun ops (onCancellationRequested 2 ?q)))
      \<and> (\<forall>c\<in>set (drop (length (proxyCalls ?q)) (proxyCalls (qrun ops (onCancellationRequested 2 ?q)))).
            2 \<notin> fst ` set c)"
    by (elim conjE)
  then have n: "2 \<notin> fst ` set (resolvedWith (qrun [Timeout, Answer 0 (\<lambda>i. Some ''badge'')]
        (onCancellationRequested 2 ?q)))"
    by (elim allE[of _ "[Timeout, Answer 0 (\<lambda>i. Some ''badge'')]"] conjE)
  have e: "resolvedWith (qrun [Timeout, Answer 0 (\<lambda>i. Some ''badge'')]
        (onCancellationRequested 2 ?q)) = [(1, Some ''badge'')]"
    by (simp add: run_queue)
  have i: "inflight ?f = [[(1, 1)]]" by (simp add: run_queue)
  then have p: "0 < length (inflight ?f) \<and> 1 \<in> fst ` set (inflight ?f ! 0)" by simp
  note th1 = cancelled_before_flush_never_resolved[OF refl, where rid = 1]
  note d = th1[THEN conjunct2, THEN conjunct2, THEN conjunct2, THEN spec, THEN mp, OF p]
  from d have c1: "onCancellationRequested 1 ?f = ?f"
    by (elim conjE)
  from d have c2: "\<forall>dat. (1, dat 1) \<in> set (resolvedWith (onAnswer 0 dat (onCancellationRequested 1 ?f)))"
    by (elim conjE)
  from c2[THEN spec, of "\<lambda>i. Some ''badge''"]
  have c3: "(1, Some ''badge'') \<in> set (resolvedWith (onAnswer 0 (\<lambda>i. Some ''badge'')
            (onCancellationRequested 1 ?f)))" .
  show ?thesis by (intro conjI l n e i c1 c3)
qed

lemma cancelled_in_turn [simp]:
  "list_ex (cancels i) (Enqueue u # ops) = list_ex (cancels i) ops"
  "list_ex (cancels i) (Cancel j # ops) = (j = i \<or> list_ex (cancels i) ops)"
  by simp_all

lemma turn_requests:
  assumes "list_all inTurn ops" and "\<forall>e\<in>set (requests q). fst e \<le> idPool q"
  shows "requests (qrun ops q) =
     filter (\<lambda>e. \<not> list_ex (cancels (fst e)) ops) (requests q)
       @ map (\<lambda>r. (fst r, r)) (stillLive (idPool q) ops)"
  using assms
proof (induction ops arbitrary: q)
  case Nil
  then show ?case by (simp add: qrun_def)
next
  case (Cons op ops)
  show ?case
  proof (cases op)
    case (Enqueue u)
    let ?p = "idPool q"
    let ?q = "snd (enqueue u q)"
    have fresh: "Suc ?p \<notin> fst ` set (requests q)" using Cons.prems(2) by fastforce
    have rq: "requests ?q = requests q @ [(Suc ?p, (Suc ?p, u))]"
      by (simp add: enqueue_fields update_fresh[OF fresh])
    have keys: "\<forall>e\<in>set (requests ?q). fst e \<le> idPool ?q"
      using Cons.prems(2) by (auto simp: rq enqueue_fields(1))
    have turn: "list_all inTurn ops" using Cons.prems(1) by simp
    have "requests (qrun (op # ops) q) = requests (qrun ops ?q)"
      by (simp add: qrun_def Enqueue)
    also have "\<dots> = filter (\<lambda>e. \<not> list_ex (cancels (fst e)) ops) (requests ?q)
        @ map (\<lambda>r. (fst r, r)) (stillLive (idPool ?q) ops)"
      by (rule Cons.IH[OF turn keys])
    also have "\<dots> = filter (\<lambda>e. \<not> list_ex (cancels (fst e)) (op # ops)) (requests q)
        @ map (\<lambda>r. (fst r, r)) (stillLive ?p (op # ops))"
      by (simp add: rq enqueue_fields(1) Enqueue)
    finally show ?thesis .
  next
    case (Cancel i)
    let ?q = "onCancellationRequested i q"
    have rq: "requests ?q = filter (\<lambda>e. fst e \<noteq> i) (requests q)"
      by (simp add: onCancellationRequested_def delete_filter)
    have p: "idPool ?q = idPool q" by (simp add: onCancellationRequested_def)
    have keys: "\<forall>e\<in>set (requests ?q). fst e \<le> idPool ?q"
      using Cons.prems(2) by (simp add: rq p)
    have turn: "list_all inTurn ops" using Cons.prems(1) by simp
    have "requests (qrun (op # ops) q) = requests (qrun ops ?q)"
      by (simp add: qrun_def Cancel)
    also have "\<dots> = filter (\<lambda>e. \<not> list_ex (cancels (fst e)) ops) (requests ?q)
        @ map (\<lambda>r. (fst r, r)) (stillLive (idPool ?q) ops)"
      by (rule Cons.IH[OF turn keys])
    also have "\<dots> = filter (\<lambda>e. \<not> list_ex (cancels (fst e)) (op # ops)) (requests q)
        @ map (\<lambda>r. (fst r, r)) (stillLive (idPool q) (op # ops))"
    proof -
      have "filter (\<lambda>e. \<not> list_ex (cancels (fst e)) ops) (filter (\<lambda>e. fst e \<noteq> i) (requests q))
          = filter (\<lambda>e. \<not> list_ex (cancels (fst e)) (op # ops)) (requests q)"
        unfolding filter_filter by (rule filter_cong) (auto simp: Cancel)
      then show ?thesis by (simp only: rq p) (simp add: Cancel)
    qed
    finally show ?thesis .
  next
    case Timeout
    then show ?thesis using Cons.prems(1) by simp
  next
    case (Answer k dat)
    then show ?thesis using Cons.prems(1) by simp
  next
    case (Failure k)
    then show ?thesis using Cons.prems(1) by simp
  qed
qed

lemma turn_timer:
  assumes "list_all inTurn ops"
  shows "proxyCalls (qrun ops q) = proxyCalls q
    \<and> timer (qrun ops q) = (timer q \<or> list_ex isEnqueue ops)
    \<and> timeouts (qrun ops q) =
        (if \<not> timer q \<and> list_ex isEnqueue ops then Suc (timeouts q) else timeouts q)"
  using assms
proof (induction ops arbitrary: q)
  case Nil
  then show ?case by (simp add: qrun_def)
next
  case (Cons op ops)
  then have turn: "list_all inTurn ops" by simp
  note IH = Cons.IH[OF turn]
  show ?case
  proof (cases op)
    case (Enqueue u)
    have "qrun (op # ops) q = qrun ops (snd (enqueue u q))" by (simp add: qrun_def Enqueue)
    then show ?thesis using IH[of "snd (enqueue u q)"] by (simp add: enqueue_fields Enqueue)
  next
    case (Cancel i)
    have "qrun (op # ops) q = qrun ops (onCancellationRequested i q)" by (simp add: qrun_def Cancel)
    then show ?thesis using IH[of "onCancellationRequested i q"]
      by (simp add: onCancellationRequested_def Cancel)
  next
    case Timeout
    then show ?thesis using Cons.prems(1) by simp
  next
    case (Answer k dat)
    then show ?thesis using Cons.prems(1) by simp
  next
    case (Failure k)
    then show ?thesis using Cons.prems(1) by simp
  qed
qed

text \<open>
  C4. In a queue reached from a new one with no timer set, a turn made of calls of \<^verbatim>\<open>enqueue\<close>
  and of cancellations, with at least one \<^verbatim>\<open>enqueue\<close>, leaves exactly one timeout waiting and makes
  no call. When the timeout runs, one call is made; it carries, in the order of their enqueuing,
  exactly the requests enqueued in the turn and not cancelled later in it. Then no timeout is
  waiting, the maps are empty, and a further run of the timeout function changes nothing.
\<close>

theorem one_batched_call_per_turn:
  assumes "q = qrun ops0 newQueue" and "\<not> timer q"
    and "list_all inTurn ops" and "list_ex isEnqueue ops"
  shows "timeouts (qrun ops q) = 1
    \<and> proxyCalls (qrun ops q) = proxyCalls q
    \<and> proxyCalls (onTimeout (qrun ops q)) = proxyCalls q @ [stillLive (idPool q) ops]
    \<and> timeouts (onTimeout (qrun ops q)) = 0
    \<and> \<not> timer (onTimeout (qrun ops q))
    \<and> requests (onTimeout (qrun ops q)) = []
    \<and> onTimeout (onTimeout (qrun ops q)) = onTimeout (qrun ops q)"
proof -
  have inv: "qinv q" unfolding assms(1) by (rule qinv_qrun) (rule qinv_newQueue)
  have idle: "timeouts q = 0" "requests q = []"
    using inv assms(2) by (simp_all add: qinv_def)
  note t = turn_timer[OF assms(3), of q]
  have 1: "timeouts (qrun ops q) = 1" using t assms(2,4) idle by simp
  have 2: "proxyCalls (qrun ops q) = proxyCalls q" using t by simp
  have rq: "requests (qrun ops q) = map (\<lambda>r. (fst r, r)) (stillLive (idPool q) ops)"
    using turn_requests[OF assms(3), of q] idle by simp
  have 3: "proxyCalls (onTimeout (qrun ops q)) = proxyCalls q @ [stillLive (idPool q) ops]"
    using 1 2 by (simp add: onTimeout_def rq comp_def)
  have 4: "timeouts (onTimeout (qrun ops q)) = 0" using 1 by (simp add: onTimeout_def)
  have 5: "\<not> timer (onTimeout (qrun ops q))" using 1 by (simp add: onTimeout_def)
  have 6: "requests (onTimeout (qrun ops q)) = []" using 1 by (simp add: onTimeout_def)
  have 7: "onTimeout (onTimeout (qrun ops q)) = onTimeout (qrun ops q)"
    using 4 by (simp add: onTimeout_def[of "onTimeout (qrun ops q)"])
  show ?thesis using 1 2 3 4 5 6 7 by blast
qed

theorem one_batched_call_per_turn_witness:
  "\<not> timer (qrun [] (newQueue :: string DecorationRequestsQueue))
   \<and> proxyCalls (onTimeout (qrun [Enqueue [''a''], Enqueue [''b''], Enqueue [''c'']]
        (qrun [] (newQueue :: string DecorationRequestsQueue))))
       = [[(1, [''a'']), (2, [''b'']), (3, [''c''])]]
   \<and> proxyCalls (onTimeout (qrun [Enqueue [''a''], Enqueue [''b''], Enqueue [''c''], Cancel 2]
        (qrun [] (newQueue :: string DecorationRequestsQueue))))
       = [[(1, [''a'']), (3, [''c''])]]"
proof -
  let ?q = "qrun [] (newQueue :: string DecorationRequestsQueue)"
  have t: "\<not> timer ?q" by (simp add: run_queue)
  have p: "proxyCalls ?q = []" "idPool ?q = 0" by (simp_all add: run_queue)
  have a: "list_all inTurn [Enqueue [''a''], Enqueue [''b''], Enqueue [''c''] :: string qop]"
    "list_ex isEnqueue [Enqueue [''a''], Enqueue [''b''], Enqueue [''c''] :: string qop]" by simp_all
  have b: "list_all inTurn [Enqueue [''a''], Enqueue [''b''], Enqueue [''c''], Cancel 2 :: string qop]"
    "list_ex isEnqueue [Enqueue [''a''], Enqueue [''b''], Enqueue [''c''], Cancel 2 :: string qop]"
    by simp_all
  from one_batched_call_per_turn[OF refl t a] p
  have 1: "proxyCalls (onTimeout (qrun [Enqueue [''a''], Enqueue [''b''], Enqueue [''c'']] ?q))
       = [[(1, [''a'']), (2, [''b'']), (3, [''c''])]]" by simp
  from one_batched_call_per_turn[OF refl t b] p
  have 2: "proxyCalls (onTimeout (qrun [Enqueue [''a''], Enqueue [''b''], Enqueue [''c''], Cancel 2] ?q))
       = [[(1, [''a'']), (3, [''c''])]]" by simp
  show ?thesis using t 1 2 by blast
qed

end
